theory Spec2Isabelle
  imports Complex_Main "HOL-Library.Sublist" "HOL-Library.Multiset"
    "HOL-Library.Char_ord" "HOL-Library.List_Lexorder"
begin

section \<open>JavaScript strings\<close>

text \<open>
  A string is a list of code units, of which the model has those below 256 (ASCII and
  the Latin-1 supplement); \<open>length\<close> stands for the \<open>.length\<close> of the source and
  \<open>take n\<close> for \<open>.slice(0, n)\<close>. In this range the white space of \<open>trim()\<close> and
  of the regular expression class \<open>\s\<close> has seven members: the blank, the tab, the line
  feed, the vertical tab, the form feed, the carriage return and the no-break space
  U+00A0.
\<close>

definition isSpace :: "char \<Rightarrow> bool" where
  "isSpace c \<longleftrightarrow>
     c \<in> set [CHR '' '', CHR 0x09, CHR 0x0A, CHR 0x0B, CHR 0x0C, CHR 0x0D, CHR 0xA0]"

definition trim :: "string \<Rightarrow> string" where
  "trim s = rev (dropWhile isSpace (rev (dropWhile isSpace s)))"

text \<open>
  \<open>toLowerCase()\<close> changes, in this range, the letters A to Z and the capital letters
  U+00C0 to U+00DE (the multiplication sign U+00D7 among them is no letter): each
  becomes the code unit 32 higher.
\<close>

definition upper_letters :: string where
  "upper_letters =
     ''ABCDEFGHIJKLMNOPQRSTUVWXYZ'' @
     [
      CHR 0xC0, CHR 0xC1, CHR 0xC2, CHR 0xC3, CHR 0xC4, CHR 0xC5, CHR 0xC6, CHR 0xC7,
      CHR 0xC8, CHR 0xC9, CHR 0xCA, CHR 0xCB, CHR 0xCC, CHR 0xCD, CHR 0xCE, CHR 0xCF,
      CHR 0xD0, CHR 0xD1, CHR 0xD2, CHR 0xD3, CHR 0xD4, CHR 0xD5, CHR 0xD6, CHR 0xD8,
      CHR 0xD9, CHR 0xDA, CHR 0xDB, CHR 0xDC, CHR 0xDD, CHR 0xDE]"

definition lower_letters :: string where
  "lower_letters =
     ''abcdefghijklmnopqrstuvwxyz'' @
     [
      CHR 0xE0, CHR 0xE1, CHR 0xE2, CHR 0xE3, CHR 0xE4, CHR 0xE5, CHR 0xE6, CHR 0xE7,
      CHR 0xE8, CHR 0xE9, CHR 0xEA, CHR 0xEB, CHR 0xEC, CHR 0xED, CHR 0xEE, CHR 0xEF,
      CHR 0xF0, CHR 0xF1, CHR 0xF2, CHR 0xF3, CHR 0xF4, CHR 0xF5, CHR 0xF6, CHR 0xF8,
      CHR 0xF9, CHR 0xFA, CHR 0xFB, CHR 0xFC, CHR 0xFD, CHR 0xFE]"

definition lowerChar :: "char \<Rightarrow> char" where
  "lowerChar c = (case map_of (zip upper_letters lower_letters) c of Some d \<Rightarrow> d | None \<Rightarrow> c)"

definition toLowerCase :: "string \<Rightarrow> string" where
  "toLowerCase s = map lowerChar s"

text \<open>\<open>s.includes(t)\<close>: \<open>t\<close> occurs in \<open>s\<close> as a contiguous substring.\<close>

fun str_includes :: "string \<Rightarrow> string \<Rightarrow> bool" where
  "str_includes [] t = (t = [])"
| "str_includes (c # cs) t = (prefix t (c # cs) \<or> str_includes cs t)"

text \<open>\<open>xs.join(sep)\<close>.\<close>

fun join :: "string \<Rightarrow> string list \<Rightarrow> string" where
  "join sep [] = []"
| "join sep [x] = x"
| "join sep (x # y # ys) = x @ sep @ join sep (y # ys)"

text \<open>\<open>s.split(/\s+/)\<close>: the pieces between maximal runs of white space.\<close>

function split_ws :: "string \<Rightarrow> string list" where
  "split_ws s =
     (let piece = takeWhile (\<lambda>c. \<not> isSpace c) s;
          rest = dropWhile (\<lambda>c. \<not> isSpace c) s
      in if rest = [] then [piece] else piece # split_ws (dropWhile isSpace rest))"
  by pat_completeness auto
termination
proof (relation "measure length")
  fix s piece rest
  assume r: "rest = dropWhile (\<lambda>c. \<not> isSpace c) s" and ne: "rest \<noteq> []"
  from ne have "isSpace (hd rest)"
    using hd_dropWhile [of "\<lambda>c. \<not> isSpace c" s] r by simp
  with ne have "length (dropWhile isSpace rest) < length rest"
    by (cases rest) (simp_all add: le_imp_less_Suc length_dropWhile_le)
  also have "length rest \<le> length s"
    by (simp add: r length_dropWhile_le)
  finally show "(dropWhile isSpace rest, s) \<in> measure length" by simp
qed simp

declare split_ws.simps [simp del]

text \<open>\<open>s.replace(/\s+/g, " ")\<close>: every maximal run of white space becomes one blank.\<close>

function collapse_ws :: "string \<Rightarrow> string" where
  "collapse_ws [] = []"
| "collapse_ws (c # cs) =
     (if isSpace c then CHR '' '' # collapse_ws (dropWhile isSpace cs)
      else c # collapse_ws cs)"
  by pat_completeness auto
termination
  by (relation "measure length") (simp_all add: le_imp_less_Suc length_dropWhile_le)

text \<open>\<open>a || b\<close> on strings: the empty string is falsy.\<close>

definition or_else :: "string \<Rightarrow> string \<Rightarrow> string" where
  "or_else a b = (if a \<noteq> [] then a else b)"

text \<open>
  A value that is a string, \<open>null\<close> or \<open>undefined\<close> is a \<open>string option\<close>; it is
  truthy when it is a non-empty string.
\<close>

definition truthy :: "string option \<Rightarrow> bool" where
  "truthy v = (case v of None \<Rightarrow> False | Some s \<Rightarrow> s \<noteq> [])"

text \<open>\<open>v || ""\<close>.\<close>

definition or_empty :: "string option \<Rightarrow> string" where
  "or_empty v = (case v of None \<Rightarrow> [] | Some s \<Rightarrow> s)"

text \<open>\<open>t || null\<close>.\<close>

definition or_null :: "string \<Rightarrow> string option" where
  "or_null t = (if t \<noteq> [] then Some t else None)"

text \<open>\<open>v || undefined\<close> on an attribute value.\<close>

definition or_undefined :: "string option \<Rightarrow> string option" where
  "or_undefined v = (if truthy v then v else None)"

text \<open>\<open>String(n)\<close> of a non-negative integer: its decimal digits.\<close>

definition digit_char :: "nat \<Rightarrow> char" where
  "digit_char d = ''0123456789'' ! d"

function String_of_nat :: "nat \<Rightarrow> string" where
  "String_of_nat n =
     (if n < 10 then [digit_char n] else String_of_nat (n div 10) @ [digit_char (n mod 10)])"
  by pat_completeness auto
termination
  by (relation "measure id") simp_all

declare String_of_nat.simps [simp del]

section \<open>The page as the content script sees it\<close>

record rect =
  rect_x :: real
  rect_y :: real
  rect_width :: real
  rect_height :: real

text \<open>
  The derived edges of a \<open>DOMRect\<close>. Coordinates are finite doubles in the source and
  reals here: comparisons and the sign of a difference of two coordinates are the same.
\<close>

definition rect_top :: "rect \<Rightarrow> real" where
  "rect_top r = min (rect_y r) (rect_y r + rect_height r)"

definition rect_bottom :: "rect \<Rightarrow> real" where
  "rect_bottom r = max (rect_y r) (rect_y r + rect_height r)"

definition rect_left :: "rect \<Rightarrow> real" where
  "rect_left r = min (rect_x r) (rect_x r + rect_width r)"

definition rect_right :: "rect \<Rightarrow> real" where
  "rect_right r = max (rect_x r) (rect_x r + rect_width r)"

record style =
  display :: string
  visibility :: string
  opacity :: string

text \<open>
  A DOM node. \<open>node_id\<close> is the identity of the object (what \<open>===\<close> compares);
  \<open>attributes\<close> lists the attributes that are present; \<open>el_value\<close>, \<open>innerText\<close> and
  \<open>textContent\<close> are empty where the property is absent; \<open>el_options\<close> holds, for a
  \<open>select\<close>, the value and text of each option.
\<close>

record element =
  node_id :: nat
  nodeType :: nat
  tagName :: string
  attributes :: "(string \<times> string) list"
  el_value :: string
  innerText :: string
  textContent :: string
  isContentEditable :: bool
  el_disabled :: bool
  computedStyle :: "style option"
  boundingClientRect :: rect
  el_options :: "(string \<times> string) list option"
  selectedIndex :: int

definition getAttribute :: "element \<Rightarrow> string \<Rightarrow> string option" where
  "getAttribute el k = map_of (attributes el) k"

text \<open>
  What the content script asks of the document and the window: the lookups by id and
  by \<open>label[for=...]\<close>, the elements matching the interactable selector list in
  document order, the viewport size, and the two selector builders, which walk the
  tree around an element.
\<close>

record page =
  getElementById :: "string \<Rightarrow> element option"
  querySelector_label_for :: "string \<Rightarrow> element option"
  querySelectorAll_interactables :: "element list"
  innerWidth :: real
  innerHeight :: real
  uniqueCssSelector :: "element \<Rightarrow> string option"
  xpathSelector :: "element \<Rightarrow> string option"

section \<open>Element Describer\<close>

definition isVisible :: "element option \<Rightarrow> bool" where
  "isVisible elo =
     (case elo of
        None \<Rightarrow> False
      | Some el \<Rightarrow>
          if nodeType el \<noteq> 1 then False
          else (case computedStyle el of
                  None \<Rightarrow> False
                | Some st \<Rightarrow>
                    if display st = ''none'' \<or> visibility st = ''hidden'' \<or> opacity st = ''0''
                    then False
                    else let r = boundingClientRect el
                         in if rect_width r \<le> 0 \<or> rect_height r \<le> 0 then False else True))"

text \<open>\<open>(node.innerText || node.textContent || "")\<close>.\<close>

definition node_text :: "element \<Rightarrow> string" where
  "node_text node = or_else (innerText node) (or_else (textContent node) [])"

definition getLabelFromLabelFor :: "page \<Rightarrow> element \<Rightarrow> string option" where
  "getLabelFromLabelFor pg el =
     (let id = getAttribute el ''id''
      in if \<not> truthy id then None
         else let lab = querySelector_label_for pg (or_empty id);
                  t = (case lab of Some l \<Rightarrow> trim (node_text l) | None \<Rightarrow> [])
              in or_null t)"

definition getLabelFromAriaLabelledBy :: "page \<Rightarrow> element \<Rightarrow> string option" where
  "getLabelFromAriaLabelledBy pg el =
     (let ids = or_empty (getAttribute el ''aria-labelledby'')
      in if ids = [] then None
         else let parts = filter (\<lambda>x. x \<noteq> []) (map trim (split_ws ids));
                  texts = filter (\<lambda>x. x \<noteq> [])
                            (map (\<lambda>pid. case getElementById pg pid of
                                           Some node \<Rightarrow> trim (node_text node)
                                         | None \<Rightarrow> []) parts)
              in or_null (trim (join '' '' texts)))"

definition accessibleName :: "page \<Rightarrow> element option \<Rightarrow> string" where
  "accessibleName pg elo =
     (case elo of
        None \<Rightarrow> []
      | Some el \<Rightarrow>
          if nodeType el \<noteq> 1 then []
          else let aria = or_empty (getAttribute el ''aria-label'') in
          if trim aria \<noteq> [] then trim aria
          else let labelled = getLabelFromAriaLabelledBy pg el in
          if truthy labelled then or_empty labelled
          else let labFor = getLabelFromLabelFor pg el in
          if truthy labFor then or_empty labFor
          else let alt = or_empty (getAttribute el ''alt'') in
          if trim alt \<noteq> [] then trim alt
          else let title = or_empty (getAttribute el ''title'') in
          if trim title \<noteq> [] then trim title
          else let tag = toLowerCase (tagName el);
                   ph = or_empty (getAttribute el ''placeholder'');
                   val = trim (or_else (el_value el) [])
          in
          if (tag = ''input'' \<or> tag = ''textarea'') \<and> trim ph \<noteq> [] then trim ph
          else if (tag = ''input'' \<or> tag = ''textarea'') \<and> val \<noteq> [] \<and> length val \<le> 80 then val
          else let txt = collapse_ws (trim (node_text el)) in
          if txt \<noteq> [] then take 120 txt
          else tag)"

text \<open>
  \<open>safeAttrs\<close>: the allow-listed attributes that are present, non-empty and at most
  200 characters long, in the order of the allow-list.
\<close>

definition safeAttrs_keys :: "string list" where
  "safeAttrs_keys =
     [''id'', ''name'', ''type'', ''role'', ''aria-label'', ''aria-labelledby'',
      ''aria-describedby'', ''placeholder'', ''href'', ''value'', ''data-testid'']"

definition safeAttrs :: "element option \<Rightarrow> (string \<times> string) list" where
  "safeAttrs elo =
     (case elo of
        None \<Rightarrow> []
      | Some el \<Rightarrow>
          if nodeType el \<noteq> 1 then []
          else concat (map (\<lambda>k. case getAttribute el k of
                                  Some v \<Rightarrow> if v \<noteq> [] \<and> length v \<le> 200 then [(k, v)] else []
                                | None \<Rightarrow> []) safeAttrs_keys))"

text \<open>
  \<open>elementRef\<close>: the reference to an acted-upon element. The fields computed from the
  element itself are kept; the nearby text, the viewport geometry and the frame context
  are read from the surrounding document and are left out.
\<close>

record element_ref =
  ref_tag :: string
  ref_attrs :: "(string \<times> string) list"
  ref_css :: "string option"
  ref_xpath :: "string option"
  ref_name :: "string option"
  ref_role :: "string option"
  ref_bbox :: rect

definition elementRef :: "page \<Rightarrow> element option \<Rightarrow> element_ref option" where
  "elementRef pg elo =
     (case elo of
        None \<Rightarrow> None
      | Some el \<Rightarrow>
          if nodeType el \<noteq> 1 then None
          else Some \<lparr> ref_tag = toLowerCase (tagName el),
                      ref_attrs = safeAttrs (Some el),
                      ref_css = uniqueCssSelector pg el,
                      ref_xpath = xpathSelector pg el,
                      ref_name = or_null (accessibleName pg (Some el)),
                      ref_role = or_undefined (getAttribute el ''role''),
                      ref_bbox = boundingClientRect el \<rparr>)"

section \<open>Page Scanner\<close>

record item =
  it_tag :: string
  it_type :: "string option"
  it_role :: "string option"
  it_label :: string
  it_disabled :: bool
  it_bbox :: rect
  it_css :: "string option"
  it_xpath :: "string option"
  it_attrs :: "(string \<times> string) list"
  in_viewport :: bool

definition inViewport :: "page \<Rightarrow> rect \<Rightarrow> bool" where
  "inViewport pg r \<longleftrightarrow>
     rect_bottom r \<ge> 0 \<and> rect_right r \<ge> 0 \<and> rect_top r \<le> innerHeight pg \<and> rect_left r \<le> innerWidth pg"

text \<open>The descriptor pushed for a surviving candidate whose accessible name is \<open>name\<close>.\<close>

definition make_item :: "page \<Rightarrow> element \<Rightarrow> string \<Rightarrow> item" where
  "make_item pg el name =
     (let r = boundingClientRect el
      in \<lparr> it_tag = toLowerCase (tagName el),
           it_type = or_undefined (getAttribute el ''type''),
           it_role = or_undefined (getAttribute el ''role''),
           it_label = take 140 (trim name),
           it_disabled = (el_disabled el \<or> getAttribute el ''aria-disabled'' = Some ''true''),
           it_bbox = r,
           it_css = uniqueCssSelector pg el,
           it_xpath = xpathSelector pg el,
           it_attrs = safeAttrs (Some el),
           in_viewport = inViewport pg r \<rparr>)"

text \<open>
  The scanning loop over the candidates: invisible elements and elements with an empty
  name are skipped, and the loop is left once \<open>limit * 2\<close> items are collected.
\<close>

fun scan_loop :: "page \<Rightarrow> nat \<Rightarrow> element list \<Rightarrow> item list \<Rightarrow> item list" where
  "scan_loop pg limit [] items = items"
| "scan_loop pg limit (el # rest) items =
     (if \<not> isVisible (Some el) then scan_loop pg limit rest items
      else let name = accessibleName pg (Some el) in
        if name = [] \<or> trim name = [] then scan_loop pg limit rest items
        else let items' = items @ [make_item pg el name] in
          if length items' \<ge> limit * 2 then items'
          else scan_loop pg limit rest items')"


text \<open>
  \<open>Array.prototype.sort\<close> with a comparator is a stable sort: \<open>a\<close> comes before
  \<open>b\<close> when the comparator is negative, and elements that compare equal keep their
  order. It is modelled as the stable insertion sort.
\<close>

fun insert_by :: "('a \<Rightarrow> 'a \<Rightarrow> real) \<Rightarrow> 'a \<Rightarrow> 'a list \<Rightarrow> 'a list" where
  "insert_by cmp x [] = [x]"
| "insert_by cmp x (y # ys) = (if cmp x y \<le> 0 then x # y # ys else y # insert_by cmp x ys)"

definition js_sort :: "('a \<Rightarrow> 'a \<Rightarrow> real) \<Rightarrow> 'a list \<Rightarrow> 'a list" where
  "js_sort cmp xs = foldr (insert_by cmp) xs []"

text \<open>The items collected by the scan, and the ranked and truncated list \<open>trimmed\<close>.\<close>

definition scanned_items :: "page \<Rightarrow> nat \<Rightarrow> item list" where
  "scanned_items pg limit = scan_loop pg limit (querySelectorAll_interactables pg) []"


record dom_state =
  llm_representation :: string
  selector_map :: "(string \<times> item) list"
  elements_count :: nat



section \<open>Event Capture: change events\<close>

definition isSensitiveInput :: "element option \<Rightarrow> bool" where
  "isSensitiveInput elo =
     (case elo of
        None \<Rightarrow> False
      | Some el \<Rightarrow>
          if nodeType el \<noteq> 1 then False
          else let tag = toLowerCase (tagName el) in
          if tag \<noteq> ''input'' \<and> tag \<noteq> ''textarea'' then False
          else let type = toLowerCase (or_empty (getAttribute el ''type'')) in
          if type = ''password'' then True
          else let name = toLowerCase (or_empty (getAttribute el ''name''));
                   ac = toLowerCase (or_empty (getAttribute el ''autocomplete'')) in
          if str_includes name ''password'' \<or> str_includes name ''passcode'' then True
          else if str_includes ac ''cc-'' \<or> str_includes ac ''credit'' \<or> str_includes ac ''card''
               then True
          else False)"

record pointer_info =
  ptr_x :: real
  ptr_y :: real
  ptr_button :: int
  ptr_modifiers :: "string list"

record key_info =
  key_key :: string
  key_code :: string
  key_modifiers :: "string list"

datatype action =
    ClickAction pointer_info "element_ref option"
  | InputAction "element_ref option" string
  | SelectAction "element_ref option" "string option"
  | ScrollAction real real
  | KeyAction "string list" "element_ref option" key_info
  | UnknownAction

fun action_type :: "action \<Rightarrow> string" where
  "action_type (ClickAction p r) = ''click''"
| "action_type (InputAction r v) = ''input''"
| "action_type (SelectAction r v) = ''select''"
| "action_type (ScrollAction dx dy) = ''scroll''"
| "action_type (KeyAction ks r k) = ''key''"
| "action_type UnknownAction = ''unknown''"

text \<open>
  The state of the content script: the enabled flag and the observation held since the
  last focus-in. The observation type \<open>'o\<close> is what \<open>buildStateSummary\<close> returns.
\<close>

record 'o content_state =
  recorderEnabled :: bool
  focusEl :: "element option"
  focusPre :: "'o option"

record dom_event =
  composedPath :: "element list"
  ev_target :: "element option"

definition resolveTargetFromEvent :: "dom_event \<Rightarrow> element option" where
  "resolveTargetFromEvent e =
     (case find (\<lambda>node. nodeType node = 1) (composedPath e) of
        Some node \<Rightarrow> Some node
      | None \<Rightarrow>
          (case ev_target e of
             Some t \<Rightarrow> if nodeType t = 1 then Some t else None
           | None \<Rightarrow> None))"

record 'o recorder_event =
  ev_kind :: string
  ev_action :: action
  ev_pre :: 'o
  ev_t_ms :: int
  ev_t_iso :: string

text \<open>\<open>sendEvent\<close>: the payload leaves the page only while the recorder is enabled.\<close>

definition sendEvent :: "'o content_state \<Rightarrow> 'o recorder_event \<Rightarrow> 'o recorder_event option" where
  "sendEvent cs payload = (if \<not> recorderEnabled cs then None else Some payload)"

text \<open>The value reported for a \<open>select\<close>: the selected option's value or text, trimmed.\<close>

definition selected_option_value :: "element \<Rightarrow> string option" where
  "selected_option_value target =
     (case el_options target of
        None \<Rightarrow> None
      | Some opts \<Rightarrow>
          if selectedIndex target \<ge> 0 \<and> nat (selectedIndex target) < length opts
          then (case opts ! nat (selectedIndex target) of
                  (v, t) \<Rightarrow> Some (trim (or_else v (or_else t []))))
          else None)"

text \<open>
  \<open>onChange\<close>: the new state of the content script and the event sent, if any.
  \<open>fresh\<close> is the observation \<open>buildStateSummary\<close> would build now for the target;
  \<open>now_ms\<close> and \<open>now_iso\<close> are the clock readings.
\<close>

definition onChange ::
  "page \<Rightarrow> 'o \<Rightarrow> int \<Rightarrow> string \<Rightarrow> 'o content_state \<Rightarrow> dom_event
     \<Rightarrow> 'o content_state \<times> 'o recorder_event option" where
  "onChange pg fresh now_ms now_iso cs e =
     (if \<not> recorderEnabled cs then (cs, None)
      else case resolveTargetFromEvent e of
        None \<Rightarrow> (cs, None)
      | Some target \<Rightarrow>
          let tag = toLowerCase (tagName target);
              isSelect = (tag = ''select'');
              isTextInput = (tag = ''input'' \<or> tag = ''textarea'' \<or> isContentEditable target)
          in
          if \<not> isSelect \<and> \<not> isTextInput then (cs, None)
          else
            let pre = (case (focusEl cs, focusPre cs) of
                         (Some f, Some p) \<Rightarrow> if node_id f = node_id target then p else fresh
                       | _ \<Rightarrow> fresh);
                act = (if isSelect
                       then SelectAction (elementRef pg (Some target)) (selected_option_value target)
                       else InputAction (elementRef pg (Some target))
                              (if isSensitiveInput (Some target) then ''<redacted>''
                               else if isContentEditable target then take 2000 (trim (innerText target))
                               else take 2000 (el_value target)));
                cs' = cs \<lparr> focusEl := None, focusPre := None \<rparr>
            in (cs', sendEvent cs' \<lparr> ev_kind = ''step'', ev_action = act, ev_pre = pre,
                                     ev_t_ms = now_ms, ev_t_iso = now_iso \<rparr>))"

section \<open>Notions used to state the properties of the content script\<close>

text \<open>
  The words of a string: its maximal runs of characters that are not white space, from
  left to right. \<open>cur\<close> holds, in reverse, the word under way.
\<close>

fun words_from :: "string \<Rightarrow> string \<Rightarrow> string list" where
  "words_from cur [] = (if cur = [] then [] else [rev cur])"
| "words_from cur (c # cs) =
     (if isSpace c then (if cur = [] then words_from [] cs else rev cur # words_from [] cs)
      else words_from (c # cur) cs)"

definition words_of :: "string \<Rightarrow> string list" where
  "words_of s = words_from [] s"

text \<open>Strings put one after the other with one blank between neighbours.\<close>

definition spaced :: "string list \<Rightarrow> string" where
  "spaced ws = (case ws of [] \<Rightarrow> [] | w # rest \<Rightarrow> w @ concat (map (\<lambda>x. CHR '' '' # x) rest))"

text \<open>
  The value of an attribute, empty when the attribute is absent, and the rendered text
  of a node: its inner text or, when that is empty, its text content.
\<close>

definition attribute_text :: "element \<Rightarrow> string \<Rightarrow> string" where
  "attribute_text el k = (case map_of (attributes el) k of Some v \<Rightarrow> v | None \<Rightarrow> [])"

definition rendered_text :: "element \<Rightarrow> string" where
  "rendered_text node = (if innerText node = [] then textContent node else innerText node)"

text \<open>
  The labels referenced through the id list: for each word of the attribute
  \<open>aria-labelledby\<close>, in order, the trimmed text of the element with that id, when
  there is such an element and its text is not blank.
\<close>

definition referenced_labels :: "page \<Rightarrow> element \<Rightarrow> string list" where
  "referenced_labels pg el =
     concat (map (\<lambda>i. case getElementById pg i of
                            None \<Rightarrow> []
                          | Some node \<Rightarrow>
                              if trim (rendered_text node) = [] then []
                              else [trim (rendered_text node)])
                 (words_of (attribute_text el ''aria-labelledby'')))"

text \<open>
  The text of the label element whose \<open>for\<close> names the element's id, trimmed; empty
  when the element has no id or no such label.
\<close>

definition label_for_text :: "page \<Rightarrow> element \<Rightarrow> string" where
  "label_for_text pg el =
     (if attribute_text el ''id'' = [] then []
      else case querySelector_label_for pg (attribute_text el ''id'') of
             None \<Rightarrow> []
           | Some lab \<Rightarrow> trim (rendered_text lab))"

text \<open>
  The accessible-name candidates in the order the specification lists them: the explicit
  label attribute; the referenced labels joined with blanks; the text of the label-for
  element; alt; title; for an input or textarea the placeholder and then the current
  value when it has at most 80 characters; the rendered text trimmed and collapsed, that
  is its words with one blank between them, cut to 120 characters; and the tag name.
  Attribute values and the current value count trimmed.
\<close>

definition text_input_like :: "element \<Rightarrow> bool" where
  "text_input_like el \<longleftrightarrow>
     toLowerCase (tagName el) = ''input'' \<or> toLowerCase (tagName el) = ''textarea''"

definition name_candidates :: "page \<Rightarrow> element \<Rightarrow> string list" where
  "name_candidates pg el =
     [trim (attribute_text el ''aria-label''),
      spaced (referenced_labels pg el),
      label_for_text pg el,
      trim (attribute_text el ''alt''),
      trim (attribute_text el ''title''),
      (if text_input_like el then trim (attribute_text el ''placeholder'') else []),
      (if text_input_like el \<and> length (trim (el_value el)) \<le> 80 then trim (el_value el) else []),
      take 120 (spaced (words_of (rendered_text el))),
      toLowerCase (tagName el)]"

definition first_nonempty :: "string list \<Rightarrow> string" where
  "first_nonempty cands = (case find (\<lambda>s. s \<noteq> []) cands of Some s \<Rightarrow> s | None \<Rightarrow> [])"

text \<open>The tag name of an element of a document is not empty and has no white space.\<close>

definition valid_tagName :: "string \<Rightarrow> bool" where
  "valid_tagName t \<longleftrightarrow> t \<noteq> [] \<and> list_all (\<lambda>c. \<not> isSpace c) t"

text \<open>
  The number of items after which the scanning loop stops: the test follows a push, so
  one item is collected even when \<open>limit\<close> is 0.
\<close>

definition scan_bound :: "nat \<Rightarrow> nat" where
  "scan_bound limit = max 1 (limit * 2)"

text \<open>
  A candidate survives the scan when it is visible and its accessible name is not empty,
  also after trimming.
\<close>

definition survives :: "page \<Rightarrow> element \<Rightarrow> bool" where
  "survives pg el \<longleftrightarrow>
     isVisible (Some el) \<and> accessibleName pg (Some el) \<noteq> [] \<and>
     trim (accessibleName pg (Some el)) \<noteq> []"



subsection \<open>A small page\<close>

definition example_element ::
  "nat \<Rightarrow> string \<Rightarrow> (string \<times> string) list \<Rightarrow> string \<Rightarrow> string \<Rightarrow> real \<Rightarrow> element" where
  "example_element i tag attrs val txt ypos =
     \<lparr> node_id = i, nodeType = 1, tagName = tag, attributes = attrs, el_value = val,
       innerText = txt, textContent = txt, isContentEditable = False, el_disabled = False,
       computedStyle = Some \<lparr> display = ''block'', visibility = ''visible'', opacity = ''1'' \<rparr>,
       boundingClientRect = \<lparr> rect_x = 10, rect_y = ypos, rect_width = 120, rect_height = 30 \<rparr>,
       el_options = None, selectedIndex = - 1 \<rparr>"

definition example_page :: "element list \<Rightarrow> page" where
  "example_page cands =
     \<lparr> getElementById = (\<lambda>i. None), querySelector_label_for = (\<lambda>i. None),
       querySelectorAll_interactables = cands, innerWidth = 1024, innerHeight = 768,
       uniqueCssSelector = (\<lambda>el. None), xpathSelector = (\<lambda>el. None) \<rparr>"

definition email_input :: element where
  "email_input = example_element 1 ''INPUT''
     [(''placeholder'', ''Email''), (''title'', ''  Your e-mail '')] ''me@example.org'' [] 10"

definition password_input :: element where
  "password_input = example_element 2 ''INPUT'' [(''type'', ''password'')] ''hunter2'' [] 50"

definition button_above :: element where
  "button_above = example_element 3 ''BUTTON'' [] [] ''Above'' 100"

definition button_below :: element where
  "button_below = example_element 4 ''BUTTON'' [] [] ''Below'' 900"

definition bare_div :: element where
  "bare_div = example_element 5 ''DIV'' [] [] [] 200"

text \<open>A button that has been scrolled past: it lies above the window.\<close>

definition button_past :: element where
  "button_past = example_element 6 ''BUTTON'' [] [] ''Past'' (- 500)"

text \<open>
  A page with 120 buttons below the fold, followed in document order by the button in
  the viewport.
\<close>

definition button_below_no :: "nat \<Rightarrow> element" where
  "button_below_no i = example_element i ''BUTTON'' [] [] ''Below'' 900"


text \<open>
  An input labelled through an id list of three ids, of which the third names no
  element; a link whose text has runs of white space; a button whose label attribute is
  a no-break space.
\<close>

definition label_first :: element where
  "label_first = example_element 20 ''SPAN'' [] [] '' First  '' 0"

definition label_second :: element where
  "label_second = example_element 21 ''SPAN'' [] [] ''Second'' 0"

definition labelled_input :: element where
  "labelled_input = example_element 22 ''INPUT''
     [(''aria-labelledby'', ''  first   second missing ''), (''title'', ''A title'')] ''typed'' [] 10"

definition labelled_page :: page where
  "labelled_page =
     (example_page [labelled_input])
       \<lparr> getElementById :=
           (\<lambda>i. if i = ''first'' then Some label_first
                else if i = ''second'' then Some label_second else None) \<rparr>"

definition spread_link :: element where
  "spread_link = example_element 23 ''A'' [] []
     (''  Read '' @ [CHR 0x09, CHR 0x0A] @ ''the'' @ [CHR 0xA0] @ '' docs  '') 10"

definition nbsp_button :: element where
  "nbsp_button = example_element 24 ''BUTTON'' [(''aria-label'', [CHR 0xA0])] [] ''OK'' 10"

text \<open>A change event on the password field, with the recorder enabled.\<close>

definition password_change :: dom_event where
  "password_change = \<lparr> composedPath = [password_input], ev_target = Some password_input \<rparr>"

definition enabled_state :: "unit content_state" where
  "enabled_state = \<lparr> recorderEnabled = True, focusEl = None, focusPre = None \<rparr>"

section \<open>The service worker: data\<close>

text \<open>
  Option objects may lack a field (the popup sends both, a stored record may be older):
  a missing field is \<open>None\<close> and reads as false.
\<close>

record options =
  captureScreenshots :: "bool option"
  captureDomState :: "bool option"

definition empty_options :: options where
  "empty_options = \<lparr> captureScreenshots = None, captureDomState = None \<rparr>"

definition default_options :: options where
  "default_options = \<lparr> captureScreenshots = Some True, captureDomState = Some True \<rparr>"

text \<open>\<open>{ ...a, ...b }\<close> on option objects: the fields of \<open>b\<close> that are present win.\<close>

definition merge_options :: "options \<Rightarrow> options \<Rightarrow> options" where
  "merge_options a b =
     \<lparr> captureScreenshots =
         (case captureScreenshots b of Some v \<Rightarrow> Some v | None \<Rightarrow> captureScreenshots a),
       captureDomState =
         (case captureDomState b of Some v \<Rightarrow> Some v | None \<Rightarrow> captureDomState a) \<rparr>"

text \<open>The settings record stored under the key \<open>recorder_state\<close>.\<close>

record settings =
  isRecording :: bool
  episodeId :: "string option"
  startedAt :: "int option"
  stepCount :: nat
  lastMessage :: string
  options :: options

text \<open>
  The object \<open>{}\<close> read as a settings record: every field is missing, hence falsy.
\<close>

definition absent_settings :: settings where
  "absent_settings =
     \<lparr> isRecording = False, episodeId = None, startedAt = None, stepCount = 0,
       lastMessage = [], options = empty_options \<rparr>"

text \<open>The episode metadata; its unused field \<open>steps: []\<close> is left out.\<close>

record episode =
  ep_episode_id :: string
  ep_created_at :: string
  ep_browser_name :: string
  ep_origin_type :: string
  ep_origin_build :: string

record page_info =
  viewport_width :: real
  viewport_height :: real
  page_width :: real
  page_height :: real
  scroll_x :: real
  scroll_y :: real
  pixels_above :: real
  pixels_below :: real
  pixels_left :: real
  pixels_right :: real

text \<open>
  The \<open>dom_state\<close> of an observation: what the content script sent (the scan result
  and, when there was a target, the reference to it), or the empty object.
\<close>

datatype dom_payload = DomState dom_state "element_ref option" | EmptyObject

definition zero_dom_state :: dom_payload where
  "zero_dom_state =
     DomState \<lparr> llm_representation = [], selector_map = [], elements_count = 0 \<rparr> None"

text \<open>The state summary as it arrives in a message: any field may be missing.\<close>

record state_summary =
  ss_dom_state :: "dom_payload option"
  ss_url :: "string option"
  ss_title :: "string option"
  ss_frame_url :: "string option"
  ss_is_top_frame :: "bool option"
  ss_page_info :: "page_info option"

record tab_entry =
  te_url :: string
  te_title :: string
  te_tab_id :: string

record shot_fields =
  screenshot :: "string option"
  screenshot_data_url :: "string option"
  screenshot_error :: "string option"

record observation =
  obs_dom_state :: dom_payload
  obs_url :: string
  obs_title :: string
  obs_tabs :: "tab_entry list"
  obs_page_info :: "page_info option"
  obs_frame_url :: "string option"
  obs_is_top_frame :: "bool option"
  obs_shot :: "shot_fields option"

record page_diff =
  diff_url :: "(string \<times> string) option"
  diff_title :: "(string \<times> string) option"
  diff_scroll_y :: "(real option \<times> real option) option"

record step_record =
  step_id :: string
  step_number :: nat
  t_ms :: "int option"
  t_iso :: "string option"
  pre :: observation
  action :: action
  post :: "observation option"
  derived :: "page_diff option"

text \<open>A row of the object store \<open>steps\<close>; its key path is \<open>step_key\<close>.\<close>

record step_row =
  step_key :: string
  episode_id :: string
  row_step_number :: nat
  step :: step_record

text \<open>
  A post-capture scheduled with \<open>setTimeout\<close>: the values its closure holds (the
  episode id of the settings read by the handler, a non-empty string there) and the
  delay.
\<close>

record timer =
  tm_episodeId :: string
  tm_stepNumber :: nat
  tm_tabId :: nat
  tm_pre :: observation
  tm_delayMs :: nat

text \<open>
  The state of the service worker: the three object stores, each in key order, and the
  timers that have not fired yet.
\<close>

record worker =
  episodes_store :: "episode list"
  steps_store :: "step_row list"
  settings_store :: "settings option"
  timers :: "timer list"

section \<open>The service worker: storage\<close>

text \<open>
  An object store with a key path is a list of records in key order: \<open>put\<close> replaces
  the record with the same key, \<open>get\<close> returns it, \<open>delete\<close> removes it. The
  store \<open>steps\<close> also declares a unique index on the pair of episode id and step
  number; a put is never rejected by it, since the key of a row determines both.
\<close>

definition store_put :: "('v \<Rightarrow> string) \<Rightarrow> 'v \<Rightarrow> 'v list \<Rightarrow> 'v list" where
  "store_put key v xs = insort_key key v (filter (\<lambda>x. key x \<noteq> key v) xs)"

definition store_get :: "('v \<Rightarrow> string) \<Rightarrow> string \<Rightarrow> 'v list \<Rightarrow> 'v option" where
  "store_get key k xs = find (\<lambda>x. key x = k) xs"

definition store_delete :: "('v \<Rightarrow> string) \<Rightarrow> string \<Rightarrow> 'v list \<Rightarrow> 'v list" where
  "store_delete key k xs = filter (\<lambda>x. key x \<noteq> k) xs"

text \<open>
  \<open>idbGetStepsForEpisode\<close>: the rows of the index \<open>by_episode\<close> for the episode,
  sorted by \<open>step_number\<close>.
\<close>

definition idbGetStepsForEpisode :: "worker \<Rightarrow> string \<Rightarrow> step_row list" where
  "idbGetStepsForEpisode w e =
     js_sort (\<lambda>a b. real (row_step_number a) - real (row_step_number b))
       (filter (\<lambda>r. episode_id r = e) (steps_store w))"

definition getSettings :: "worker \<Rightarrow> settings option" where
  "getSettings w = settings_store w"

definition setSettings :: "settings \<Rightarrow> worker \<Rightarrow> worker" where
  "setSettings v w = w \<lparr> settings_store := Some v \<rparr>"

text \<open>The key of a step row: \<open>`${episodeId}:${stepNumber}`\<close>.\<close>

definition make_step_key :: "string \<Rightarrow> nat \<Rightarrow> string" where
  "make_step_key e n = e @ '':'' @ String_of_nat n"

section \<open>The service worker: operations\<close>

definition cleared_settings :: settings where
  "cleared_settings =
     \<lparr> isRecording = False, episodeId = None, startedAt = None, stepCount = 0,
       lastMessage = ''Cleared.'', options = default_options \<rparr>"

text \<open>\<open>clearAll\<close> carried out in one piece.\<close>

definition clearAll :: "worker \<Rightarrow> worker" where
  "clearAll w =
     (let st = getSettings w;
          w1 = (case st of
                  None \<Rightarrow> w
                | Some s \<Rightarrow>
                    if truthy (episodeId s)
                    then let e = or_empty (episodeId s);
                             steps = idbGetStepsForEpisode w e;
                             w' = fold (\<lambda>r v. v \<lparr> steps_store :=
                                        store_delete step_key (step_key r) (steps_store v) \<rparr>) steps w
                         in w' \<lparr> episodes_store := store_delete ep_episode_id e (episodes_store w') \<rparr>
                    else w)
      in setSettings cleared_settings w1)"

definition initial_settings :: settings where
  "initial_settings =
     \<lparr> isRecording = False, episodeId = None, startedAt = None, stepCount = 0,
       lastMessage = [], options = default_options \<rparr>"

definition init :: "worker \<Rightarrow> worker" where
  "init w = (case getSettings w of None \<Rightarrow> setSettings initial_settings w | Some st \<Rightarrow> w)"

text \<open>The worker when the extension is first loaded: empty stores, then \<open>init\<close>.\<close>

definition empty_worker :: worker where
  "empty_worker =
     \<lparr> episodes_store = [], steps_store = [], settings_store = None, timers = [] \<rparr>"

definition initial_worker :: worker where
  "initial_worker = init empty_worker"

text \<open>
  What an operation receives from outside the store: the random identifier, the clock,
  the active tab and the outcome of the script injection, the tab looked up for a step
  (\<open>None\<close> when the lookup is rejected) and the screenshot (\<open>None\<close> when the window
  lookup before it is rejected).
\<close>

datatype inject_result = Injected | InjectFailed string

datatype shot = Shot string | ShotError string

record tab =
  tab_url :: string
  tab_title :: string

record env =
  env_uuid :: string
  env_now_iso :: string
  env_date_now :: int
  env_active_tab :: "nat option"
  env_injected :: inject_result
  env_tab :: "tab option"
  env_shot :: "shot option"

text \<open>The result of \<open>startRecording\<close>.\<close>

record start_result =
  sr_episodeId :: string
  sr_stepCount :: nat
  sr_lastMessage :: string

definition startRecording :: "env \<Rightarrow> options option \<Rightarrow> worker \<Rightarrow> worker \<times> start_result" where
  "startRecording ev opts w =
     (let episodeId' = env_uuid ev;
          createdAt = env_now_iso ev;
          episode' = \<lparr> ep_episode_id = episodeId', ep_created_at = createdAt,
                       ep_browser_name = ''chromium'', ep_origin_type = ''extension_mvp'',
                       ep_origin_build = ''0.1.0'' \<rparr>;
          w1 = w \<lparr> episodes_store := store_put ep_episode_id episode' (episodes_store w) \<rparr>;
          st = getSettings w1;
          mergedOptions = merge_options (case st of Some s \<Rightarrow> options s | None \<Rightarrow> empty_options)
                            (case opts of Some p \<Rightarrow> p | None \<Rightarrow> empty_options);
          lastMessage' =
            (case env_active_tab ev of
               None \<Rightarrow> ''Recording started.''
             | Some tid \<Rightarrow>
                 if tid = 0 then ''Recording started.''
                 else (case env_injected ev of
                         Injected \<Rightarrow> ''Recording started.''
                       | InjectFailed err \<Rightarrow>
                           ''Recording started, but could not access the active tab: '' @ err));
          w2 = setSettings \<lparr> isRecording = True, episodeId = Some episodeId',
                             startedAt = Some (env_date_now ev), stepCount = 0,
                             lastMessage = lastMessage', options = mergedOptions \<rparr> w1
      in (w2, \<lparr> sr_episodeId = episodeId', sr_stepCount = 0,
                sr_lastMessage = ''Recording started.'' \<rparr>))"

definition stopRecording :: "worker \<Rightarrow> worker \<times> settings option" where
  "stopRecording w =
     (case getSettings w of
        None \<Rightarrow> (w, None)
      | Some st \<Rightarrow>
          if \<not> isRecording st then (w, Some st)
          else let w' = setSettings (st \<lparr> isRecording := False,
                                          lastMessage := ''Recording stopped.'' \<rparr>) w
               in (w', getSettings w'))"

definition setOptions :: "options option \<Rightarrow> worker \<Rightarrow> worker \<times> settings option" where
  "setOptions opts w =
     (let st = getSettings w;
          merged = merge_options (case st of Some s \<Rightarrow> options s | None \<Rightarrow> empty_options)
                     (case opts of Some p \<Rightarrow> p | None \<Rightarrow> empty_options);
          base = (case st of Some s \<Rightarrow> s | None \<Rightarrow> absent_settings);
          w' = setSettings (base \<lparr> options := merged, lastMessage := ''Options updated.'' \<rparr>) w
      in (w', getSettings w'))"

text \<open>The export: the episode metadata, the options and the steps of the stored rows.\<close>

record episode_out =
  out_episode_id :: string
  out_created_at :: string
  out_browser_name :: string
  out_origin_type :: string
  out_origin_build :: string
  out_options :: options
  out_steps :: "step_record list"

datatype response =
    NoResponse
  | StatusResponse "settings option"
  | StartResponse start_result
  | ExportResponse episode_out string nat string
  | NoEpisodeResponse
  | StepResponse nat
  | ErrorResponse string

definition export_episode :: "worker \<Rightarrow> response" where
  "export_episode w =
     (case getSettings w of
        None \<Rightarrow> NoEpisodeResponse
      | Some st2 \<Rightarrow>
          if \<not> truthy (episodeId st2) then NoEpisodeResponse
          else let e = or_empty (episodeId st2) in
            (case store_get ep_episode_id e (episodes_store w) of
               None \<Rightarrow> ErrorResponse ''TypeError''
             | Some ep \<Rightarrow>
                 let steps = idbGetStepsForEpisode w e;
                     episodeOut = \<lparr> out_episode_id = ep_episode_id ep,
                                     out_created_at = ep_created_at ep,
                                     out_browser_name = ep_browser_name ep,
                                     out_origin_type = ep_origin_type ep,
                                     out_origin_build = ep_origin_build ep,
                                     out_options = options st2,
                                     out_steps = map step steps \<rparr>
                 in ExportResponse episodeOut e (length steps) ''Exported.''))"

subsection \<open>Step events\<close>

record sender =
  sender_tab_id :: "nat option"

record step_event =
  se_kind :: string
  se_action :: "action option"
  se_pre :: "state_summary option"
  se_t_ms :: "int option"
  se_t_iso :: "string option"

text \<open>
  \<open>captureScreenshotForActiveWindow\<close> strips the prefix of the data URL: the piece
  between the first and the second comma, or the whole URL when it has no comma.
\<close>

definition b64_of :: "string \<Rightarrow> string" where
  "b64_of dataUrl =
     (if CHR '','' \<in> set dataUrl
      then takeWhile (\<lambda>c. c \<noteq> CHR '','') (tl (dropWhile (\<lambda>c. c \<noteq> CHR '','') dataUrl))
      else dataUrl)"

definition shot_to_fields :: "shot \<Rightarrow> shot_fields" where
  "shot_to_fields s =
     (case s of
        Shot dataUrl \<Rightarrow> \<lparr> screenshot = or_null (b64_of dataUrl),
                          screenshot_data_url = or_null dataUrl, screenshot_error = None \<rparr>
      | ShotError err \<Rightarrow> \<lparr> screenshot = None, screenshot_data_url = None,
                           screenshot_error = or_null err \<rparr>)"

text \<open>
  The observation stored for a step, before and after the action: the content script's
  summary overlaid with the tab's URL and title. The source builds \<open>pre\<close> and
  \<open>post\<close> by the same expression.
\<close>

definition build_observation ::
  "options \<Rightarrow> state_summary option \<Rightarrow> tab \<Rightarrow> nat \<Rightarrow> shot_fields option \<Rightarrow> observation" where
  "build_observation opts fromContent tb tabId shotf =
     \<lparr> obs_dom_state =
         (if captureDomState opts = Some True
          then (case Option.bind fromContent ss_dom_state of Some d \<Rightarrow> d | None \<Rightarrow> EmptyObject)
          else zero_dom_state),
       obs_url = or_else (tab_url tb) (or_empty (Option.bind fromContent ss_url)),
       obs_title = or_else (tab_title tb) (or_empty (Option.bind fromContent ss_title)),
       obs_tabs = [\<lparr> te_url = tab_url tb, te_title = tab_title tb,
                     te_tab_id = String_of_nat tabId \<rparr>],
       obs_page_info = Option.bind fromContent ss_page_info,
       obs_frame_url = Option.bind fromContent ss_frame_url,
       obs_is_top_frame = Option.bind fromContent ss_is_top_frame,
       obs_shot = shotf \<rparr>"

text \<open>
  The handling of a step event suspends at every \<open>await\<close>. Its accesses to the store
  are three: the settings are read when the handler starts, the pending row is put, and
  the settings are written from the copy read at the start. A handler is at one of these
  points, or done.
\<close>

datatype handler =
    AtRead env sender step_event
  | AtPut settings nat step_row timer
  | AtCommit settings nat
  | Done response

definition delay_of :: "action \<Rightarrow> nat" where
  "delay_of a = (if action_type a = ''scroll'' then 200 else 500)"

text \<open>From the settings read to the row that will be put.\<close>

definition step_read :: "env \<Rightarrow> sender \<Rightarrow> step_event \<Rightarrow> worker \<Rightarrow> handler" where
  "step_read ev sndr event w =
     (case getSettings w of
        None \<Rightarrow> Done NoResponse
      | Some st \<Rightarrow>
          if \<not> isRecording st \<or> \<not> truthy (episodeId st) then Done NoResponse
          else (case sender_tab_id sndr of
                  None \<Rightarrow> Done NoResponse
                | Some tabId \<Rightarrow>
                    if tabId = 0 then Done NoResponse
                    else let e = or_empty (episodeId st);
                             stepNumber = stepCount st;
                             stepId = env_uuid ev
                         in (case env_tab ev of
                               None \<Rightarrow> Done (ErrorResponse ''tabs.get'')
                             | Some tb \<Rightarrow>
                                 if captureScreenshots (options st) = Some True \<and> env_shot ev = None
                                 then Done (ErrorResponse ''windows.getLastFocused'')
                                 else
                                   let shotf = (if captureScreenshots (options st) = Some True
                                                then map_option shot_to_fields (env_shot ev)
                                                else None);
                                       pre' = build_observation (options st) (se_pre event) tb tabId shotf;
                                       action' = (case se_action event of Some a \<Rightarrow> a
                                                  | None \<Rightarrow> UnknownAction);
                                       stepRecord = \<lparr> step_id = stepId, step_number = stepNumber,
                                                       t_ms = se_t_ms event, t_iso = se_t_iso event,
                                                       pre = pre', action = action',
                                                       post = None, derived = None \<rparr>;
                                       row = \<lparr> step_key = make_step_key e stepNumber,
                                                episode_id = e,
                                                row_step_number = stepNumber,
                                                step = stepRecord \<rparr>;
                                       tm = \<lparr> tm_episodeId = e, tm_stepNumber = stepNumber,
                                               tm_tabId = tabId, tm_pre = pre',
                                               tm_delayMs = delay_of action' \<rparr>
                                   in AtPut st stepNumber row tm)))"

text \<open>One access of a handler to the store.\<close>

fun advance :: "worker \<times> handler \<Rightarrow> worker \<times> handler" where
  "advance (w, AtRead ev sndr event) = (w, step_read ev sndr event w)"
| "advance (w, AtPut st stepNumber row tm) =
     (w \<lparr> steps_store := store_put step_key row (steps_store w), timers := timers w @ [tm] \<rparr>,
      AtCommit st stepNumber)"
| "advance (w, AtCommit st stepNumber) =
     (setSettings (st \<lparr> stepCount := stepNumber + 1,
                        lastMessage := ''Recorded step '' @ String_of_nat stepNumber @ ''.'' \<rparr>) w,
      Done (StepResponse stepNumber))"
| "advance (w, Done r) = (w, Done r)"

definition response_of :: "handler \<Rightarrow> response" where
  "response_of h = (case h of Done r \<Rightarrow> r | _ \<Rightarrow> NoResponse)"

text \<open>A step event handled with no other handler running in between.\<close>

definition handle_step_event :: "env \<Rightarrow> sender \<Rightarrow> step_event \<Rightarrow> worker \<Rightarrow> worker \<times> response" where
  "handle_step_event ev sndr event w =
     (case advance (advance (advance (w, AtRead ev sndr event))) of
        (w', h) \<Rightarrow> (w', response_of h))"

subsection \<open>Messages\<close>

datatype message =
    RECORDER_GET_STATUS
  | RECORDER_START "options option"
  | RECORDER_STOP
  | RECORDER_CLEAR
  | RECORDER_SET_OPTIONS "options option"
  | RECORDER_EXPORT
  | RECORDER_EVENT step_event
  | OtherMessage

fun onMessage :: "env \<Rightarrow> message \<Rightarrow> sender \<Rightarrow> worker \<Rightarrow> worker \<times> response" where
  "onMessage ev RECORDER_GET_STATUS sndr w = (w, StatusResponse (getSettings w))"
| "onMessage ev (RECORDER_START opts) sndr w =
     (case startRecording ev opts w of (w', r) \<Rightarrow> (w', StartResponse r))"
| "onMessage ev RECORDER_STOP sndr w =
     (case stopRecording w of (w', r) \<Rightarrow> (w', StatusResponse r))"
| "onMessage ev RECORDER_CLEAR sndr w =
     (let w' = clearAll w in (w', StatusResponse (getSettings w')))"
| "onMessage ev (RECORDER_SET_OPTIONS opts) sndr w =
     (case setOptions opts w of (w', r) \<Rightarrow> (w', StatusResponse r))"
| "onMessage ev RECORDER_EXPORT sndr w = (w, export_episode w)"
| "onMessage ev (RECORDER_EVENT event) sndr w =
     (if se_kind event = ''step'' then handle_step_event ev sndr event w else (w, NoResponse))"
| "onMessage ev OtherMessage sndr w = (w, NoResponse)"

subsection \<open>The delayed post-capture\<close>

text \<open>
  What the callback receives from outside the store: the reply of the content script
  (\<open>None\<close> when there is none or the request failed), the tab and the screenshot.
\<close>

record post_env =
  pe_reply :: "state_summary option"
  pe_tab :: "tab option"
  pe_shot :: "shot option"

datatype post_outcome = Abandoned | Rejected string | RowMissing | Finalized

definition derive_diff :: "observation \<Rightarrow> observation \<Rightarrow> page_diff" where
  "derive_diff pre' post' =
     \<lparr> diff_url = (if obs_url pre' \<noteq> obs_url post' then Some (obs_url pre', obs_url post') else None),
       diff_title =
         (if obs_title pre' \<noteq> obs_title post' then Some (obs_title pre', obs_title post') else None),
       diff_scroll_y =
         (let a = map_option scroll_y (obs_page_info pre');
              b = map_option scroll_y (obs_page_info post')
          in if a \<noteq> b then Some (a, b) else None) \<rparr>"

text \<open>
  The callback carried out in one piece, with no other access to the store between its
  test of the settings and its write.
\<close>

definition postCapture :: "post_env \<Rightarrow> timer \<Rightarrow> worker \<Rightarrow> worker \<times> post_outcome" where
  "postCapture pe tm w =
     (case getSettings w of
        None \<Rightarrow> (w, Abandoned)
      | Some st3 \<Rightarrow>
          if \<not> truthy (episodeId st3) \<or> episodeId st3 \<noteq> Some (tm_episodeId tm)
          then (w, Abandoned)
          else (case pe_tab pe of
                  None \<Rightarrow> (w, Rejected ''tabs.get'')
                | Some tab2 \<Rightarrow>
                    if captureScreenshots (options st3) = Some True \<and> pe_shot pe = None
                    then (w, Rejected ''windows.getLastFocused'')
                    else
                      let shotf = (if captureScreenshots (options st3) = Some True
                                   then map_option shot_to_fields (pe_shot pe) else None);
                          post' = build_observation (options st3) (pe_reply pe) tab2 (tm_tabId tm) shotf;
                          derived' = derive_diff (tm_pre tm) post'
                      in (case store_get step_key
                                 (make_step_key (tm_episodeId tm) (tm_stepNumber tm))
                                 (steps_store w) of
                            None \<Rightarrow> (w, RowMissing)
                          | Some row \<Rightarrow>
                              (w \<lparr> steps_store :=
                                    store_put step_key
                                      (row \<lparr> step := (step row) \<lparr> post := Some post',
                                                                  derived := Some derived' \<rparr> \<rparr>)
                                      (steps_store w) \<rparr>,
                               Finalized))))"

subsection \<open>Navigation\<close>

record nav_details =
  frameId :: int
  nav_url :: string

definition onCommitted :: "nav_details \<Rightarrow> worker \<Rightarrow> worker" where
  "onCommitted details w =
     (case getSettings w of
        None \<Rightarrow> w
      | Some st \<Rightarrow>
          if \<not> isRecording st then w
          else if frameId details \<noteq> 0 then w
          else setSettings (st \<lparr> lastMessage := ''Navigation: '' @ nav_url details \<rparr>) w)"

section \<open>Runs of the service worker\<close>

text \<open>
  What can happen to the worker: a message is handled, a timer fires, a navigation is
  committed. Here each is carried out in one piece, with no other access in between.
\<close>

datatype transition =
    Message env message sender
  | TimerFires post_env nat
  | Navigation nav_details

fun apply_transition :: "transition \<Rightarrow> worker \<Rightarrow> worker" where
  "apply_transition (Message ev msg sndr) w = fst (onMessage ev msg sndr w)"
| "apply_transition (TimerFires pe i) w =
     (if i < length (timers w)
      then fst (postCapture pe (timers w ! i)
                  (w \<lparr> timers := take i (timers w) @ drop (Suc i) (timers w) \<rparr>))
      else w)"
| "apply_transition (Navigation details) w = onCommitted details w"

text \<open>
  The identifier drawn for a new episode is new: no stored row, episode or pending timer
  bears it, nor do the settings.
\<close>

definition fresh_episode_id :: "worker \<Rightarrow> string \<Rightarrow> bool" where
  "fresh_episode_id w e \<longleftrightarrow>
     e \<notin> set (map episode_id (steps_store w)) \<and>
     e \<notin> set (map ep_episode_id (episodes_store w)) \<and>
     e \<notin> set (map tm_episodeId (timers w)) \<and>
     (case settings_store w of None \<Rightarrow> True | Some st \<Rightarrow> episodeId st \<noteq> Some e)"

fun admissible :: "transition \<Rightarrow> worker \<Rightarrow> bool" where
  "admissible (Message ev (RECORDER_START opts) sndr) w = fresh_episode_id w (env_uuid ev)"
| "admissible t w = True"

inductive reachable :: "worker \<Rightarrow> bool" where
  reachable_initial: "reachable initial_worker"
| reachable_step: "reachable w \<Longrightarrow> admissible t w \<Longrightarrow> reachable (apply_transition t w)"

text \<open>
  Handlers whose store accesses interleave: a schedule names, access by access, the
  handler that runs next.
\<close>

fun run_schedule :: "nat list \<Rightarrow> worker \<times> handler list \<Rightarrow> worker \<times> handler list" where
  "run_schedule [] (w, hs) = (w, hs)"
| "run_schedule (i # sched) (w, hs) =
     (if i < length hs
      then (case advance (w, hs ! i) of (w', h') \<Rightarrow> run_schedule sched (w', hs[i := h']))
      else run_schedule sched (w, hs))"

subsection \<open>Clear and the post-capture, access by access\<close>

text \<open>
  \<open>clearAll\<close> awaits each of its store accesses: the settings are read, the rows of
  the episode are listed, each listed row is deleted in a transaction of its own, the
  episode is deleted, and the settings are written. A clear under way is at one of these
  points, holding the episode id it read and the listed rows it has not deleted yet.
\<close>

datatype clear_handler =
    ClearAtRead
  | ClearAtList string
  | ClearAtDelete string "step_row list"
  | ClearAtSettings
  | ClearDone

fun clear_advance :: "worker \<times> clear_handler \<Rightarrow> worker \<times> clear_handler" where
  "clear_advance (w, ClearAtRead) =
     (case getSettings w of
        None \<Rightarrow> (w, ClearAtSettings)
      | Some st \<Rightarrow>
          if truthy (episodeId st) then (w, ClearAtList (or_empty (episodeId st)))
          else (w, ClearAtSettings))"
| "clear_advance (w, ClearAtList e) = (w, ClearAtDelete e (idbGetStepsForEpisode w e))"
| "clear_advance (w, ClearAtDelete e (r # rs)) =
     (w \<lparr> steps_store := store_delete step_key (step_key r) (steps_store w) \<rparr>,
      ClearAtDelete e rs)"
| "clear_advance (w, ClearAtDelete e []) =
     (w \<lparr> episodes_store := store_delete ep_episode_id e (episodes_store w) \<rparr>, ClearAtSettings)"
| "clear_advance (w, ClearAtSettings) = (setSettings cleared_settings w, ClearDone)"
| "clear_advance (w, ClearDone) = (w, ClearDone)"

text \<open>
  The post-capture callback tests the settings when it fires and then awaits the reply
  of the content script, the tab and the screenshot before it gets the row, and the get
  before it puts the row back. A callback under way is at the test, at the get (holding
  the observation and the diff it has built) or at the put (holding the row it has
  changed).
\<close>

datatype post_handler =
    PostAtGuard post_env timer
  | PostAtGet timer observation page_diff
  | PostAtPut step_row
  | PostDone post_outcome

fun post_advance :: "worker \<times> post_handler \<Rightarrow> worker \<times> post_handler" where
  "post_advance (w, PostAtGuard pe tm) =
     (case getSettings w of
        None \<Rightarrow> (w, PostDone Abandoned)
      | Some st3 \<Rightarrow>
          if \<not> truthy (episodeId st3) \<or> episodeId st3 \<noteq> Some (tm_episodeId tm)
          then (w, PostDone Abandoned)
          else (case pe_tab pe of
                  None \<Rightarrow> (w, PostDone (Rejected ''tabs.get''))
                | Some tab2 \<Rightarrow>
                    if captureScreenshots (options st3) = Some True \<and> pe_shot pe = None
                    then (w, PostDone (Rejected ''windows.getLastFocused''))
                    else
                      let shotf = (if captureScreenshots (options st3) = Some True
                                   then map_option shot_to_fields (pe_shot pe) else None);
                          post' = build_observation (options st3) (pe_reply pe) tab2 (tm_tabId tm) shotf;
                          derived' = derive_diff (tm_pre tm) post'
                      in (w, PostAtGet tm post' derived')))"
| "post_advance (w, PostAtGet tm post' derived') =
     (case store_get step_key (make_step_key (tm_episodeId tm) (tm_stepNumber tm))
             (steps_store w) of
        None \<Rightarrow> (w, PostDone RowMissing)
      | Some row \<Rightarrow>
          (w, PostAtPut (row \<lparr> step := (step row) \<lparr> post := Some post',
                                                     derived := Some derived' \<rparr> \<rparr>)))"
| "post_advance (w, PostAtPut row) =
     (w \<lparr> steps_store := store_put step_key row (steps_store w) \<rparr>, PostDone Finalized)"
| "post_advance (w, PostDone r) = (w, PostDone r)"

section \<open>Notions used to state the properties of the service worker\<close>

text \<open>The stored rows of an episode, and the episode the settings name as active.\<close>

definition rows_of :: "worker \<Rightarrow> string \<Rightarrow> step_row list" where
  "rows_of w e = filter (\<lambda>r. episode_id r = e) (steps_store w)"

definition active_episode :: "worker \<Rightarrow> string option" where
  "active_episode w = (case settings_store w of None \<Rightarrow> None | Some st \<Rightarrow> episodeId st)"

text \<open>
  Every row is stored under the key made of its episode and number, and the step it
  holds bears the same number.
\<close>

definition rows_wf :: "worker \<Rightarrow> bool" where
  "rows_wf w \<longleftrightarrow>
     list_all (\<lambda>r. step_key r = make_step_key (episode_id r) (row_step_number r) \<and>
                   step_number (step r) = row_step_number r) (steps_store w)"

definition keys_distinct :: "worker \<Rightarrow> bool" where
  "keys_distinct w \<longleftrightarrow> distinct (map step_key (steps_store w))"

text \<open>The numbers of the rows of the active episode are those below the step counter.\<close>

definition count_ok :: "worker \<Rightarrow> bool" where
  "count_ok w \<longleftrightarrow>
     (case settings_store w of
        None \<Rightarrow> True
      | Some st \<Rightarrow>
          (case episodeId st of
             None \<Rightarrow> True
           | Some e \<Rightarrow> set (map row_step_number (rows_of w e)) = {0 ..< stepCount st}))"

definition worker_inv :: "worker \<Rightarrow> bool" where
  "worker_inv w \<longleftrightarrow> rows_wf w \<and> keys_distinct w \<and> count_ok w"

text \<open>A run: transitions carried out one after the other, each admissible where it starts.\<close>

fun run :: "transition list \<Rightarrow> worker \<Rightarrow> worker" where
  "run [] w = w"
| "run (t # ts) w = run ts (apply_transition t w)"

fun admissible_run :: "transition list \<Rightarrow> worker \<Rightarrow> bool" where
  "admissible_run [] w = True"
| "admissible_run (t # ts) w = (admissible t w \<and> admissible_run ts (apply_transition t w))"

text \<open>The decimal digits, of which the rendering of a number consists.\<close>

definition is_digit :: "char \<Rightarrow> bool" where
  "is_digit c \<longleftrightarrow> c \<in> set ''0123456789''"

text \<open>
  What a transition leaves alone, for an episode that is stored and not active: its rows,
  its metadata, and its not being active.
\<close>

definition untouched :: "string \<Rightarrow> worker \<Rightarrow> worker \<Rightarrow> bool" where
  "untouched e w w' \<longleftrightarrow>
     rows_of w' e = rows_of w e \<and>
     store_get ep_episode_id e (episodes_store w') = store_get ep_episode_id e (episodes_store w) \<and>
     active_episode w' \<noteq> Some e"

subsection \<open>A small session\<close>

definition example_tab :: tab where
  "example_tab = \<lparr> tab_url = ''https://example.org/'', tab_title = ''Example'' \<rparr>"

definition example_env :: "string \<Rightarrow> env" where
  "example_env u =
     \<lparr> env_uuid = u, env_now_iso = ''2024-01-01T00:00:00.000Z'', env_date_now = 0,
       env_active_tab = Some 7, env_injected = Injected, env_tab = Some example_tab,
       env_shot = Some (ShotError ''no window'') \<rparr>"

definition failing_env :: "string \<Rightarrow> env" where
  "failing_env u = (example_env u) \<lparr> env_injected := InjectFailed ''Cannot access the page'' \<rparr>"

definition example_post_env :: post_env where
  "example_post_env =
     \<lparr> pe_reply = None, pe_tab = Some example_tab, pe_shot = Some (ShotError ''no window'') \<rparr>"

definition tab_sender :: sender where
  "tab_sender = \<lparr> sender_tab_id = Some 7 \<rparr>"

definition click_event :: step_event where
  "click_event =
     \<lparr> se_kind = ''step'',
       se_action = Some (ClickAction \<lparr> ptr_x = 5, ptr_y = 5, ptr_button = 0, ptr_modifiers = [] \<rparr> None),
       se_pre = None, se_t_ms = Some 10, se_t_iso = None \<rparr>"

definition key_event :: step_event where
  "key_event =
     \<lparr> se_kind = ''step'',
       se_action = Some (KeyAction [''Enter''] None
                          \<lparr> key_key = ''Enter'', key_code = ''Enter'', key_modifiers = [] \<rparr>),
       se_pre = None, se_t_ms = Some 12, se_t_iso = None \<rparr>"

text \<open>Recording of episode \<open>A\<close> has started; then two steps are recorded, one by one.\<close>

definition started_A :: worker where
  "started_A = apply_transition (Message (example_env ''A'') (RECORDER_START None) tab_sender)
     initial_worker"

definition two_steps_A :: worker where
  "two_steps_A =
     run [Message (example_env ''s0'') (RECORDER_EVENT click_event) tab_sender,
          Message (example_env ''s1'') (RECORDER_EVENT key_event) tab_sender] started_A"

text \<open>Episode \<open>A\<close> is cleared and episode \<open>B\<close> started while the two timers are pending.\<close>

definition started_B :: worker where
  "started_B =
     run [Message (example_env ''x'') RECORDER_CLEAR tab_sender,
          Message (example_env ''B'') (RECORDER_START None) tab_sender] two_steps_A"

text \<open>Episode \<open>B\<close> is started after episode \<open>A\<close> was stopped, not cleared.\<close>

definition stopped_A_started_B :: worker where
  "stopped_A_started_B =
     run [Message (example_env ''x'') RECORDER_STOP tab_sender,
          Message (example_env ''B'') (RECORDER_START None) tab_sender] two_steps_A"

text \<open>
  What an export reply says: the episode id, the step count and the numbers of the
  steps, in the order of the array.
\<close>

definition export_summary :: "response \<Rightarrow> (string \<times> nat \<times> nat list) option" where
  "export_summary r =
     (case r of
        ExportResponse out e n msg \<Rightarrow> Some (e, n, map step_number (out_steps out))
      | _ \<Rightarrow> None)"

text \<open>
  Episode \<open>A\<close> with its two steps is stopped and then cleared; the clear has read the
  settings, listed the two rows and deleted the first of them.
\<close>

definition stopped_A :: worker where
  "stopped_A = run [Message (example_env ''x'') RECORDER_STOP tab_sender] two_steps_A"

definition clearing_A :: "worker \<times> clear_handler" where
  "clearing_A = clear_advance (clear_advance (clear_advance (stopped_A, ClearAtRead)))"

text \<open>
  Episode \<open>A\<close> with one step recorded. The handler of a second step event has read the
  settings; before it goes on, recording is stopped and episode \<open>B\<close> is started; then
  the handler makes its two remaining accesses.
\<close>

definition one_step_A :: worker where
  "one_step_A =
     run [Message (example_env ''s0'') (RECORDER_EVENT click_event) tab_sender] started_A"

definition overtaken_handler :: "worker \<times> handler" where
  "overtaken_handler = advance (one_step_A, AtRead (example_env ''s1'') tab_sender key_event)"

definition restarted_B :: worker where
  "restarted_B =
     run [Message (example_env ''x'') RECORDER_STOP tab_sender,
          Message (example_env ''B'') (RECORDER_START None) tab_sender] (fst overtaken_handler)"

definition overtaken_finished :: "worker \<times> handler" where
  "overtaken_finished = advance (advance (restarted_B, snd overtaken_handler))"

text \<open>
  The post-capture of step 0 of episode \<open>A\<close> fires and passes its test; before it gets
  the row, recording is stopped and episode \<open>B\<close> is started; then the callback gets
  and puts the row.
\<close>

definition passed_guard :: "worker \<times> post_handler" where
  "passed_guard = post_advance (one_step_A, PostAtGuard example_post_env (timers one_step_A ! 0))"

definition restarted_B_late :: worker where
  "restarted_B_late =
     run [Message (example_env ''x'') RECORDER_STOP tab_sender,
          Message (example_env ''B'') (RECORDER_START None) tab_sender] (fst passed_guard)"

definition late_write :: "worker \<times> post_handler" where
  "late_write = post_advance (post_advance (restarted_B_late, snd passed_guard))"

section \<open>Facts about the string operations\<close>

lemma trim_hd_nonspace: "trim s \<noteq> [] \<Longrightarrow> \<not> isSpace (hd (trim s))"
proof -
  assume ne: "trim s \<noteq> []"
  let ?d = "dropWhile isSpace s"
  have d: "?d \<noteq> []" using ne by (cases ?d) (simp_all add: trim_def)
  then have h: "\<not> isSpace (hd ?d)" by (rule hd_dropWhile)
  obtain c cs where dc: "?d = c # cs" using d by (cases ?d) auto
  with h have c: "\<not> isSpace c" by simp
  have "rev ?d = rev cs @ [c]" using dc by simp
  then have "dropWhile isSpace (rev ?d) = dropWhile isSpace (rev cs) @ [c]"
    using c by (simp add: dropWhile_append)
  then have "trim s = c # rev (dropWhile isSpace (rev cs))"
    by (simp add: trim_def)
  with c show ?thesis by simp
qed

lemma trim_last_nonspace: "trim s \<noteq> [] \<Longrightarrow> \<not> isSpace (last (trim s))"
proof -
  assume ne: "trim s \<noteq> []"
  let ?e = "dropWhile isSpace (rev (dropWhile isSpace s))"
  have "?e \<noteq> []" using ne by (simp add: trim_def)
  then have "\<not> isSpace (hd ?e)" by (rule hd_dropWhile)
  then show ?thesis by (simp add: trim_def last_rev)
qed

lemma trim_id: "s \<noteq> [] \<Longrightarrow> \<not> isSpace (hd s) \<Longrightarrow> \<not> isSpace (last s) \<Longrightarrow> trim s = s"
proof -
  assume a: "s \<noteq> []" "\<not> isSpace (hd s)" "\<not> isSpace (last s)"
  have d: "dropWhile isSpace s = s" using a by (simp add: dropWhile_eq_self_iff)
  have "dropWhile isSpace (rev s) = rev s" using a by (simp add: dropWhile_eq_self_iff hd_rev)
  with d show ?thesis by (simp add: trim_def)
qed

lemma trim_nospace: "\<forall>c \<in> set p. \<not> isSpace c \<Longrightarrow> trim p = p"
proof (cases "p = []")
  case True
  then show ?thesis by (simp add: trim_def)
next
  case False
  assume "\<forall>c \<in> set p. \<not> isSpace c"
  with False have "\<not> isSpace (hd p)" "\<not> isSpace (last p)" by simp_all
  with False show ?thesis by (simp add: trim_id)
qed

subsection \<open>Words\<close>

lemma words_from_spaces: "list_all isSpace sp \<Longrightarrow> words_from [] sp = []"
  by (induction sp) simp_all

lemma words_from_dropWhile: "words_from [] (dropWhile isSpace s) = words_from [] s"
  by (induction s) simp_all

lemma words_from_run:
  "words_from cur s =
     (if cur = [] \<and> takeWhile (\<lambda>c. \<not> isSpace c) s = [] then []
      else [rev cur @ takeWhile (\<lambda>c. \<not> isSpace c) s]) @
     words_from [] (dropWhile (\<lambda>c. \<not> isSpace c) s)"
  by (induction s arbitrary: cur) simp_all

lemma words_from_nonempty: "cur \<noteq> [] \<Longrightarrow> words_from cur s \<noteq> []"
  by (induction s arbitrary: cur) simp_all

lemma words_of_nonempty: "s \<noteq> [] \<Longrightarrow> \<not> isSpace (hd s) \<Longrightarrow> words_of s \<noteq> []"
  by (cases s) (simp_all add: words_of_def words_from_nonempty)

lemma words_from_append_spaces:
  "list_all isSpace sp \<Longrightarrow> words_from cur (x @ sp) = words_from cur x"
proof (induction x arbitrary: cur)
  case Nil
  then show ?case by (cases sp) (simp_all add: words_from_spaces)
next
  case (Cons c x)
  then show ?case by simp
qed

lemma words_of_trim: "words_of (trim s) = words_of s"
proof -
  let ?d = "dropWhile isSpace s"
  let ?sp = "rev (takeWhile isSpace (rev ?d))"
  have "rev (takeWhile isSpace (rev ?d) @ dropWhile isSpace (rev ?d)) = ?d"
    by (simp only: takeWhile_dropWhile_id rev_rev_ident)
  then have "rev (dropWhile isSpace (rev ?d)) @ ?sp = ?d" by (simp only: rev_append)
  then have d: "?d = trim s @ ?sp" by (simp only: trim_def)
  have sp: "list_all isSpace ?sp"
    by (auto simp: list_all_iff dest: set_takeWhileD)
  have "words_from [] (trim s) = words_from [] (trim s @ ?sp)"
    using words_from_append_spaces [OF sp] by simp
  also have "\<dots> = words_from [] ?d" using d by simp
  also have "\<dots> = words_from [] s" by (rule words_from_dropWhile)
  finally show ?thesis by (simp add: words_of_def)
qed

lemma split_ws_last:
  "dropWhile (\<lambda>c. \<not> isSpace c) s = [] \<Longrightarrow> split_ws s = [takeWhile (\<lambda>c. \<not> isSpace c) s]"
  by (rule trans [OF split_ws.simps]) (simp only: Let_def refl if_True)

lemma split_ws_more:
  "dropWhile (\<lambda>c. \<not> isSpace c) s \<noteq> [] \<Longrightarrow>
   split_ws s = takeWhile (\<lambda>c. \<not> isSpace c) s #
                split_ws (dropWhile isSpace (dropWhile (\<lambda>c. \<not> isSpace c) s))"
  by (rule trans [OF split_ws.simps]) (simp only: Let_def if_False)

lemma split_ws_pieces: "p \<in> set (split_ws s) \<Longrightarrow> \<forall>c \<in> set p. \<not> isSpace c"
proof (induction s arbitrary: p rule: split_ws.induct)
  case (1 s)
  let ?piece = "takeWhile (\<lambda>c. \<not> isSpace c) s"
  let ?rest = "dropWhile (\<lambda>c. \<not> isSpace c) s"
  have pc: "\<forall>c \<in> set ?piece. \<not> isSpace c" by (auto dest: set_takeWhileD)
  show ?case
  proof (cases "?rest = []")
    case True
    from "1.prems" have "p \<in> set [?piece]" by (simp only: split_ws_last [OF True])
    then have "p = ?piece" by simp
    with pc show ?thesis by (simp only:)
  next
    case False
    from "1.prems" have "p \<in> set (?piece # split_ws (dropWhile isSpace ?rest))"
      by (subst (asm) split_ws_more [OF False])
    then have "p = ?piece \<or> p \<in> set (split_ws (dropWhile isSpace ?rest))"
      by (simp only: set_simps insert_iff)
    then show ?thesis
    proof
      assume "p = ?piece"
      with pc show ?thesis by (simp only:)
    next
      assume "p \<in> set (split_ws (dropWhile isSpace ?rest))"
      then show ?thesis by (rule "1.IH" [OF refl refl False])
    qed
  qed
qed

lemma split_ws_words: "filter (\<lambda>x. x \<noteq> []) (map trim (split_ws s)) = words_of s"
proof -
  have "\<And>p. p \<in> set (split_ws s) \<Longrightarrow> trim p = p"
    using split_ws_pieces trim_nospace by blast
  then have t: "map trim (split_ws s) = split_ws s" by (rule map_idI)
  have "filter (\<lambda>x. x \<noteq> []) (split_ws s) = words_from [] s"
  proof (induction s rule: split_ws.induct)
    case (1 s)
    let ?piece = "takeWhile (\<lambda>c. \<not> isSpace c) s"
    let ?rest = "dropWhile (\<lambda>c. \<not> isSpace c) s"
    have w: "words_from [] s = (if ?piece = [] then [] else [?piece]) @ words_from [] ?rest"
      using words_from_run [of "[]" s] by simp
    show ?case
    proof (cases "?rest = []")
      case True
      have "words_from [] ?rest = []" by (simp only: True words_from.simps) simp
      with w have "words_from [] s = (if ?piece = [] then [] else [?piece])" by simp
      moreover have "filter (\<lambda>x. x \<noteq> []) [?piece] = (if ?piece = [] then [] else [?piece])"
        by simp
      ultimately show ?thesis by (simp only: split_ws_last [OF True])
    next
      case False
      have ih: "filter (\<lambda>x. x \<noteq> []) (split_ws (dropWhile isSpace ?rest)) = words_from [] ?rest"
        using "1.IH" [OF refl refl False] by (simp only: words_from_dropWhile)
      have "filter (\<lambda>x. x \<noteq> []) (?piece # split_ws (dropWhile isSpace ?rest)) =
          (if ?piece = [] then [] else [?piece]) @ words_from [] ?rest"
        by (simp add: ih del: dropWhile_eq_Nil_conv)
      with w show ?thesis by (simp only: split_ws_more [OF False])
    qed
  qed
  with t show ?thesis by (simp add: words_of_def)
qed

subsection \<open>Joining with blanks\<close>

lemma spaced_Nil: "spaced [] = []"
  by (simp add: spaced_def)

lemma spaced_single: "spaced [w] = w"
  by (simp add: spaced_def)

lemma spaced_Cons2: "spaced (w # x # xs) = w @ CHR '' '' # spaced (x # xs)"
  by (simp add: spaced_def)

lemma join_spaced: "join '' '' ws = spaced ws"
  by (induction "'' ''" ws rule: join.induct) (simp_all add: spaced_Nil spaced_single spaced_Cons2)

lemma spaced_ends:
  assumes "ws \<noteq> []" and "\<forall>w \<in> set ws. w \<noteq> [] \<and> \<not> isSpace (hd w) \<and> \<not> isSpace (last w)"
  shows "spaced ws \<noteq> [] \<and> \<not> isSpace (hd (spaced ws)) \<and> \<not> isSpace (last (spaced ws))"
  using assms
proof (induction ws rule: induct_list012)
  case 1
  then show ?case by simp
next
  case (2 w)
  then show ?case by (simp add: spaced_single)
next
  case (3 w x xs)
  then have ih: "spaced (x # xs) \<noteq> [] \<and> \<not> isSpace (last (spaced (x # xs)))" by simp
  from 3 have w: "w \<noteq> []" "\<not> isSpace (hd w)" by simp_all
  show ?case using ih w by (simp add: spaced_Cons2)
qed

lemma trim_spaced:
  assumes "\<forall>w \<in> set ws. w \<noteq> [] \<and> \<not> isSpace (hd w) \<and> \<not> isSpace (last w)"
  shows "trim (spaced ws) = spaced ws"
proof (cases "ws = []")
  case True
  then show ?thesis by (simp add: spaced_Nil trim_def)
next
  case False
  from spaced_ends [OF False assms] show ?thesis by (simp add: trim_id)
qed

subsection \<open>Collapsing\<close>

lemma collapse_ws_word:
  "\<forall>c \<in> set w. \<not> isSpace c \<Longrightarrow> collapse_ws (w @ r) = w @ collapse_ws r"
  by (induction w) simp_all

lemma collapse_ws_words:
  "s = [] \<or> (\<not> isSpace (hd s) \<and> \<not> isSpace (last s)) \<Longrightarrow> collapse_ws s = spaced (words_of s)"
proof (induction "length s" arbitrary: s rule: less_induct)
  case less
  show ?case
  proof (cases "s = []")
    case True
    then show ?thesis by (simp add: words_of_def spaced_Nil)
  next
    case False
    with less.prems have h: "\<not> isSpace (hd s)" and l: "\<not> isSpace (last s)" by simp_all
    let ?w = "takeWhile (\<lambda>c. \<not> isSpace c) s"
    let ?r = "dropWhile (\<lambda>c. \<not> isSpace c) s"
    have s: "s = ?w @ ?r" by simp
    have wne: "?w \<noteq> []" using False h by (cases s) simp_all
    have wc: "\<forall>c \<in> set ?w. \<not> isSpace c" by (auto dest: set_takeWhileD)
    have ws: "words_of s = ?w # words_from [] ?r"
      using words_from_run [of "[]" s] wne by (simp add: words_of_def)
    have c: "collapse_ws s = ?w @ collapse_ws ?r"
      using collapse_ws_word [OF wc, of ?r] by simp
    show ?thesis
    proof (cases "?r = []")
      case True
      with ws c show ?thesis by (simp add: spaced_single)
    next
      case rne: False
      then have hr: "isSpace (hd ?r)" using hd_dropWhile [of "\<lambda>c. \<not> isSpace c" s] by simp
      let ?t = "dropWhile isSpace ?r"
      obtain c0 r0 where r: "?r = c0 # r0" using rne by (cases ?r) auto
      with hr have c0: "isSpace c0" by simp
      have t: "?t = dropWhile isSpace r0" using r c0 by simp
      have "last (?w @ ?r) = last ?r" using rne by (rule last_appendR)
      then have lr: "last ?r = last s" by (simp only: takeWhile_dropWhile_id)
      have tne: "?t \<noteq> []"
      proof
        assume "?t = []"
        then have a: "\<forall>c \<in> set ?r. isSpace c" by (simp only: dropWhile_eq_Nil_conv)
        have "last ?r \<in> set ?r" using rne by (rule last_in_set)
        with a have "isSpace (last ?r)" by (rule bspec)
        with l lr show False by (simp only:)
      qed
      then have ht: "\<not> isSpace (hd ?t)" by (rule hd_dropWhile)
      have "last (takeWhile isSpace ?r @ ?t) = last ?t" using tne by (rule last_appendR)
      then have "last ?r = last ?t" by (simp only: takeWhile_dropWhile_id)
      with l lr have lt: "\<not> isSpace (last ?t)" by metis
      have len: "length ?t < length s"
      proof -
        have "length ?t \<le> length r0" unfolding t by (rule length_dropWhile_le)
        also have "\<dots> < length ?r" using r by simp
        also have "\<dots> \<le> length s" by (rule length_dropWhile_le)
        finally show ?thesis .
      qed
      from less.hyps [OF len] ht lt have ih: "collapse_ws ?t = spaced (words_of ?t)" by simp
      have wt: "words_from [] ?r = words_of ?t"
        by (simp add: words_of_def words_from_dropWhile)
      have wtne: "words_of ?t \<noteq> []" using tne ht by (rule words_of_nonempty)
      then obtain x xs where x: "words_of ?t = x # xs" by (cases "words_of ?t") auto
      have "collapse_ws ?r = CHR '' '' # collapse_ws ?t" using r c0 t by simp
      with c ih have "collapse_ws s = ?w @ CHR '' '' # spaced (words_of ?t)" by simp
      also have "\<dots> = spaced (?w # words_of ?t)" by (simp add: x spaced_Cons2)
      finally show ?thesis by (simp add: ws wt)
    qed
  qed
qed

lemma collapse_trim_words: "collapse_ws (trim s) = spaced (words_of s)"
proof -
  have "trim s = [] \<or> (\<not> isSpace (hd (trim s)) \<and> \<not> isSpace (last (trim s)))"
    using trim_hd_nonspace trim_last_nonspace by blast
  then have "collapse_ws (trim s) = spaced (words_of (trim s))" by (rule collapse_ws_words)
  then show ?thesis by (simp add: words_of_trim)
qed


subsection \<open>Trimming and lower case\<close>

lemma trim_keeps_nonspace_hd: "s \<noteq> [] \<Longrightarrow> \<not> isSpace (hd s) \<Longrightarrow> trim s \<noteq> []"
proof -
  assume "s \<noteq> []" "\<not> isSpace (hd s)"
  then obtain c cs where s: "s = c # cs" and c: "\<not> isSpace c" by (cases s) auto
  have "dropWhile isSpace (rev s) = dropWhile isSpace (rev cs) @ [c]"
    using c s by (simp add: dropWhile_append)
  then show ?thesis using s c by (simp add: trim_def)
qed

lemma trim_trim_nonempty: "trim s \<noteq> [] \<Longrightarrow> trim (trim s) \<noteq> []"
  by (simp add: trim_hd_nonspace trim_keeps_nonspace_hd)

lemma trim_Nil_imp: "trim s \<noteq> [] \<Longrightarrow> s \<noteq> []"
  by (auto simp: trim_def)

lemma lowerChar_cases: "lowerChar c = c \<or> lowerChar c \<in> set lower_letters"
proof (cases "map_of (zip upper_letters lower_letters) c")
  case None
  then show ?thesis by (simp add: lowerChar_def)
next
  case (Some d)
  then have "(c, d) \<in> set (zip upper_letters lower_letters)" by (rule map_of_SomeD)
  then have "d \<in> set lower_letters" by (rule set_zip_rightD)
  with Some show ?thesis by (simp add: lowerChar_def)
qed

lemma lower_letters_not_space: "d \<in> set lower_letters \<Longrightarrow> \<not> isSpace d"
  by (auto simp: lower_letters_def isSpace_def)

lemma lowerChar_not_space: "\<not> isSpace c \<Longrightarrow> \<not> isSpace (lowerChar c)"
  using lowerChar_cases [of c] lower_letters_not_space by auto

lemma lower_examples:
  "toLowerCase ''INPUT'' = ''input''" "toLowerCase ''BUTTON'' = ''button''"
  "toLowerCase ''DIV'' = ''div''" "toLowerCase ''password'' = ''password''"
  by (simp_all add: toLowerCase_def lowerChar_def upper_letters_def lower_letters_def)

lemma take_120_Nil: "take 120 s = [] \<longleftrightarrow> s = []"
  by (cases s) simp_all

lemma truthy_iff: "truthy v \<longleftrightarrow> or_empty v \<noteq> []"
  by (cases v) (simp_all add: truthy_def or_empty_def)

lemma collapse_ws_hd:
  "s \<noteq> [] \<Longrightarrow> \<not> isSpace (hd s) \<Longrightarrow> collapse_ws s \<noteq> [] \<and> hd (collapse_ws s) = hd s"
  by (cases s) auto

lemma collapse_ws_eq_Nil: "collapse_ws s = [] \<longleftrightarrow> s = []"
  by (cases s) auto

section \<open>The accessible name\<close>

lemma first_nonempty_Cons:
  "first_nonempty (c # cs) = (if c \<noteq> [] then c else first_nonempty cs)"
  by (simp add: first_nonempty_def)

lemma first_nonempty_Nil: "first_nonempty [] = []"
  by (simp add: first_nonempty_def)

text \<open>The helpers of the source compute the candidates as the specification words them.\<close>

lemma node_text_rendered: "node_text node = rendered_text node"
  by (simp add: node_text_def rendered_text_def or_else_def)

lemma attribute_text_eq: "or_empty (getAttribute el k) = attribute_text el k"
  by (simp add: or_empty_def getAttribute_def attribute_text_def)

lemma or_empty_or_null: "or_empty (or_null t) = t"
  by (simp add: or_empty_def or_null_def)

lemma texts_of_ids:
  "filter (\<lambda>x. x \<noteq> [])
     (map (\<lambda>pid. case getElementById pg pid of
                    Some node \<Rightarrow> trim (node_text node)
                  | None \<Rightarrow> []) ids) =
   concat (map (\<lambda>i. case getElementById pg i of
                       None \<Rightarrow> []
                     | Some node \<Rightarrow>
                         if trim (rendered_text node) = [] then []
                         else [trim (rendered_text node)]) ids)"
  by (induction ids) (simp_all add: node_text_rendered split: option.splits)

lemma referenced_labels_trimmed:
  "\<forall>w \<in> set (referenced_labels pg el). w \<noteq> [] \<and> \<not> isSpace (hd w) \<and> \<not> isSpace (last w)"
  unfolding referenced_labels_def
  by (auto simp: trim_hd_nonspace trim_last_nonspace split: option.splits if_splits)

lemma labelledBy_spec:
  "or_empty (getLabelFromAriaLabelledBy pg el) = spaced (referenced_labels pg el)"
proof (cases "attribute_text el ''aria-labelledby'' = []")
  case True
  then have "getLabelFromAriaLabelledBy pg el = None"
    by (simp add: getLabelFromAriaLabelledBy_def attribute_text_eq)
  with True show ?thesis
    by (simp add: referenced_labels_def words_of_def spaced_Nil or_empty_def)
next
  case False
  then have "getLabelFromAriaLabelledBy pg el =
      or_null (trim (spaced (referenced_labels pg el)))"
    by (simp add: getLabelFromAriaLabelledBy_def attribute_text_eq Let_def split_ws_words
        texts_of_ids join_spaced referenced_labels_def)
  then show ?thesis
    by (simp add: or_empty_or_null trim_spaced [OF referenced_labels_trimmed])
qed

lemma labelFor_spec: "or_empty (getLabelFromLabelFor pg el) = label_for_text pg el"
  by (simp add: getLabelFromLabelFor_def label_for_text_def truthy_iff attribute_text_eq Let_def
      or_empty_or_null node_text_rendered split: option.splits)
    (simp add: or_empty_def)

lemma name_candidates_code:
  "name_candidates pg el =
     [trim (or_empty (getAttribute el ''aria-label'')),
      or_empty (getLabelFromAriaLabelledBy pg el),
      or_empty (getLabelFromLabelFor pg el),
      trim (or_empty (getAttribute el ''alt'')),
      trim (or_empty (getAttribute el ''title'')),
      (if text_input_like el then trim (or_empty (getAttribute el ''placeholder'')) else []),
      (if text_input_like el \<and> length (trim (el_value el)) \<le> 80 then trim (el_value el) else []),
      take 120 (collapse_ws (trim (node_text el))),
      toLowerCase (tagName el)]"
  by (simp add: name_candidates_def attribute_text_eq labelledBy_spec labelFor_spec
      collapse_trim_words node_text_rendered)

lemma accessibleName_first_nonempty:
  assumes "nodeType el = 1"
  shows "accessibleName pg (Some el) =
     first_nonempty
       [trim (or_empty (getAttribute el ''aria-label'')),
        or_empty (getLabelFromAriaLabelledBy pg el),
        or_empty (getLabelFromLabelFor pg el),
        trim (or_empty (getAttribute el ''alt'')),
        trim (or_empty (getAttribute el ''title'')),
        (if text_input_like el then trim (or_empty (getAttribute el ''placeholder'')) else []),
        (if text_input_like el \<and> length (trim (el_value el)) \<le> 80 then trim (el_value el) else []),
        take 120 (collapse_ws (trim (node_text el))),
        toLowerCase (tagName el)]"
  using assms unfolding accessibleName_def text_input_like_def
  by (simp add: first_nonempty_Cons first_nonempty_Nil truthy_iff Let_def or_else_def take_120_Nil)

lemma first_nonempty_candidates:
  "nodeType el = 1 \<Longrightarrow> first_nonempty (name_candidates pg el) = accessibleName pg (Some el)"
  by (simp only: name_candidates_code accessibleName_first_nonempty)

lemmas example_defs = example_element_def example_page_def email_input_def password_input_def
  button_above_def button_below_def bare_div_def button_past_def button_below_no_def

text \<open>
  Claim C7. For every element, the accessible name computed by \<open>accessibleName\<close> is the
  first non-empty candidate of this list: the explicit label attribute; the texts of the
  elements named by the words of the id list, joined with blanks; the text of the
  label-for element; alt; title; for an input or textarea the placeholder and then the
  current value when it has at most 80 characters; the words of the rendered text with
  one blank between them, cut to 120 characters; and last the tag name.
\<close>

theorem accessibleName_order:
  "nodeType el = 1 \<Longrightarrow> accessibleName pg (Some el) = first_nonempty (name_candidates pg el)"
  by (simp only: name_candidates_code accessibleName_first_nonempty)

theorem accessibleName_order_witness:
  "nodeType labelled_input = 1 \<and>
   accessibleName labelled_page (Some labelled_input) = ''First Second'' \<and>
   accessibleName (example_page []) (Some spread_link) = ''Read the docs'' \<and>
   accessibleName (example_page []) (Some nbsp_button) = ''OK'' \<and>
   accessibleName (example_page []) (Some email_input) = ''Your e-mail''"
proof -
  have n: "nodeType labelled_input = 1" "nodeType spread_link = 1" "nodeType nbsp_button = 1"
    "nodeType email_input = 1"
    by (simp_all add: labelled_input_def spread_link_def nbsp_button_def example_defs)
  have a: "first_nonempty (name_candidates labelled_page labelled_input) = ''First Second''"
    by code_simp
  have b: "first_nonempty (name_candidates (example_page []) spread_link) = ''Read the docs''"
    by code_simp
  have c: "first_nonempty (name_candidates (example_page []) nbsp_button) = ''OK''"
    by code_simp
  have d: "first_nonempty (name_candidates (example_page []) email_input) = ''Your e-mail''"
    by code_simp
  from accessibleName_order [OF n(1), of labelled_page] a
  have a': "accessibleName labelled_page (Some labelled_input) = ''First Second''" by simp
  from accessibleName_order [OF n(2), of "example_page []"] b
  have b': "accessibleName (example_page []) (Some spread_link) = ''Read the docs''" by simp
  from accessibleName_order [OF n(3), of "example_page []"] c
  have c': "accessibleName (example_page []) (Some nbsp_button) = ''OK''" by simp
  from accessibleName_order [OF n(4), of "example_page []"] d
  have d': "accessibleName (example_page []) (Some email_input) = ''Your e-mail''" by simp
  from n(1) a' b' c' d' show ?thesis by (intro conjI)
qed

section \<open>The name filter of the scanner\<close>

lemma valid_tagName_lower: "valid_tagName t \<Longrightarrow> trim (toLowerCase t) \<noteq> []"
  by (cases t)
    (simp_all add: valid_tagName_def toLowerCase_def lowerChar_not_space trim_keeps_nonspace_hd)

lemma or_null_trim_nonempty: "or_null (trim s) = Some t \<Longrightarrow> trim t \<noteq> []"
  using trim_trim_nonempty [of s] by (auto simp: or_null_def split: if_splits)

lemma labelledBy_trim:
  "or_empty (getLabelFromAriaLabelledBy pg el) \<noteq> [] \<Longrightarrow>
   trim (or_empty (getLabelFromAriaLabelledBy pg el)) \<noteq> []"
proof -
  assume a: "or_empty (getLabelFromAriaLabelledBy pg el) \<noteq> []"
  then obtain t where t: "getLabelFromAriaLabelledBy pg el = Some t"
    by (cases "getLabelFromAriaLabelledBy pg el") (simp_all add: or_empty_def)
  then obtain s where "or_null (trim s) = Some t"
    unfolding getLabelFromAriaLabelledBy_def Let_def by (metis option.distinct(1))
  then have "trim t \<noteq> []" by (rule or_null_trim_nonempty)
  with t show ?thesis by (simp add: or_empty_def)
qed

lemma labelFor_trim:
  "or_empty (getLabelFromLabelFor pg el) \<noteq> [] \<Longrightarrow>
   trim (or_empty (getLabelFromLabelFor pg el)) \<noteq> []"
proof -
  assume a: "or_empty (getLabelFromLabelFor pg el) \<noteq> []"
  then obtain t where t: "getLabelFromLabelFor pg el = Some t" and ne: "t \<noteq> []"
    by (cases "getLabelFromLabelFor pg el") (simp_all add: or_empty_def)
  have "\<exists>s. or_null s = Some t \<and> (s = [] \<or> (\<exists>u. s = trim u))"
    using t unfolding getLabelFromLabelFor_def Let_def
    by (cases "querySelector_label_for pg (or_empty (getAttribute el ''id''))")
       (auto split: if_splits)
  then obtain s where s: "or_null s = Some t" and d: "s = [] \<or> (\<exists>u. s = trim u)" by blast
  from s have "s \<noteq> []" by (auto simp: or_null_def split: if_splits)
  with d obtain u where "s = trim u" by blast
  with s have "or_null (trim u) = Some t" by simp
  then have "trim t \<noteq> []" by (rule or_null_trim_nonempty)
  with t show ?thesis by (simp add: or_empty_def)
qed

lemma text_candidate_trim:
  assumes "take 120 (collapse_ws (trim s)) \<noteq> []"
  shows "trim (take 120 (collapse_ws (trim s))) \<noteq> []"
proof -
  from assms have ne: "trim s \<noteq> []" by (auto simp add: collapse_ws_eq_Nil)
  then have h: "\<not> isSpace (hd (trim s))" by (rule trim_hd_nonspace)
  from collapse_ws_hd [OF ne h] have c: "collapse_ws (trim s) \<noteq> []"
    and hc: "hd (collapse_ws (trim s)) = hd (trim s)" by simp_all
  have "hd (take 120 (collapse_ws (trim s))) = hd (trim s)"
    using c hc by (cases "collapse_ws (trim s)") simp_all
  with assms show ?thesis using h by (simp add: trim_keeps_nonspace_hd)
qed

lemma first_nonempty_trim:
  "list_all (\<lambda>c. c \<noteq> [] \<longrightarrow> trim c \<noteq> []) cs \<Longrightarrow> cs \<noteq> [] \<Longrightarrow> trim (last cs) \<noteq> []
   \<Longrightarrow> trim (first_nonempty cs) \<noteq> []"
proof (induction cs)
  case Nil
  then show ?case by simp
next
  case (Cons c cs)
  show ?case
  proof (cases "c \<noteq> []")
    case True
    with Cons.prems show ?thesis by (simp add: first_nonempty_Cons)
  next
    case False
    with Cons.prems have "cs \<noteq> []" by (auto simp: trim_def)
    with Cons False show ?thesis by (simp add: first_nonempty_Cons)
  qed
qed

lemma name_candidates_trim:
  "valid_tagName (tagName el) \<Longrightarrow>
   list_all (\<lambda>c. c \<noteq> [] \<longrightarrow> trim c \<noteq> []) (name_candidates pg el)"
  unfolding name_candidates_code
  by (simp add: trim_trim_nonempty labelledBy_trim labelFor_trim text_candidate_trim
      valid_tagName_lower del: take_eq_Nil)

lemma accessibleName_trim_nonempty:
  assumes "nodeType el = 1" and "valid_tagName (tagName el)"
  shows "trim (accessibleName pg (Some el)) \<noteq> []"
proof -
  have "trim (last (name_candidates pg el)) \<noteq> []"
    using assms(2) by (simp add: name_candidates_def valid_tagName_lower)
  moreover have "name_candidates pg el \<noteq> []" by (simp add: name_candidates_def)
  ultimately have "trim (first_nonempty (name_candidates pg el)) \<noteq> []"
    using name_candidates_trim [OF assms(2)] by (simp add: first_nonempty_trim)
  then show ?thesis by (simp add: first_nonempty_candidates [OF assms(1)])
qed

lemma isVisible_nodeType: "isVisible (Some el) \<Longrightarrow> nodeType el = 1"
  by (simp add: isVisible_def split: if_splits)

text \<open>
  The scanning loop collects the items of the surviving candidates in document order
  and stops at the bound.
\<close>

lemma scan_loop_collected:
  assumes "length items < scan_bound limit"
  shows "scan_loop pg limit cands items =
     items @ take (scan_bound limit - length items)
       (map (\<lambda>el. make_item pg el (accessibleName pg (Some el)))
          (filter (survives pg) cands))"
  using assms
proof (induction cands arbitrary: items)
  case Nil
  then show ?case by simp
next
  case (Cons el rest)
  show ?case
  proof (cases "survives pg el")
    case False
    then show ?thesis using Cons by (auto simp: survives_def Let_def)
  next
    case True
    then have v: "isVisible (Some el)" and n: "accessibleName pg (Some el) \<noteq> []"
      and t: "trim (accessibleName pg (Some el)) \<noteq> []"
      by (simp_all add: survives_def)
    let ?it = "make_item pg el (accessibleName pg (Some el))"
    show ?thesis
    proof (cases "length (items @ [?it]) \<ge> limit * 2")
      case full: True
      with Cons.prems have "scan_bound limit - length items = Suc 0"
        by (auto simp: scan_bound_def max_def split: if_splits)
      then show ?thesis using True v t n full by (simp add: Let_def)
    next
      case more: False
      then have lt: "length (items @ [?it]) < scan_bound limit"
        by (simp add: scan_bound_def)
      from Cons.IH [OF lt] have ih: "scan_loop pg limit rest (items @ [?it]) =
        (items @ [?it]) @ take (scan_bound limit - length (items @ [?it]))
         (map (\<lambda>el. make_item pg el (accessibleName pg (Some el)))
            (filter (survives pg) rest))" .
      have "scan_bound limit - length items = Suc (scan_bound limit - length (items @ [?it]))"
        using lt by simp
      then show ?thesis using True v t n more ih by (simp add: Let_def)
    qed
  qed
qed

lemma scanned_items_collected:
  "scanned_items pg limit =
     take (scan_bound limit)
       (map (\<lambda>c. make_item pg c (accessibleName pg (Some c)))
          (filter (survives pg) (querySelectorAll_interactables pg)))"
proof -
  have "length ([] :: item list) < scan_bound limit" by (simp add: scan_bound_def)
  from scan_loop_collected [OF this, of pg] show ?thesis by (simp add: scanned_items_def)
qed

lemma survives_visible:
  "valid_tagName (tagName c) \<Longrightarrow> survives pg c \<longleftrightarrow> isVisible (Some c)"
  using accessibleName_trim_nonempty [of c pg] isVisible_nodeType [of c] trim_Nil_imp
  by (auto simp: survives_def)




lemma name_div: "accessibleName (example_page cs) (Some bare_div) = ''div''"
  by (simp add: first_nonempty_candidates [symmetric] example_defs) code_simp

lemma visible_examples:
  "isVisible (Some button_above)" "isVisible (Some button_below)" "isVisible (Some bare_div)"
  "isVisible (Some button_past)" "isVisible (Some (button_below_no i))"
  by (simp_all add: isVisible_def example_defs)

lemma cands_example: "querySelectorAll_interactables (example_page cs) = cs"
  by (simp add: example_page_def)

text \<open>
  Claim C9. For every element node the accessible name is a non-empty string, also
  after trimming, the tag name being the last resort; hence the scanner's test for an
  empty name never drops a visible candidate: the items collected are those of the
  visible candidates, in document order, up to the bound of the scanning loop.
\<close>

theorem accessibleName_never_empty:
  assumes "nodeType el = 1" and "valid_tagName (tagName el)"
    and "\<forall>c \<in> set (querySelectorAll_interactables pg). valid_tagName (tagName c)"
  shows "accessibleName pg (Some el) \<noteq> [] \<and> trim (accessibleName pg (Some el)) \<noteq> [] \<and>
    scanned_items pg limit =
      take (scan_bound limit)
        (map (\<lambda>c. make_item pg c (accessibleName pg (Some c)))
           (filter (\<lambda>c. isVisible (Some c)) (querySelectorAll_interactables pg)))"
proof -
  have t: "trim (accessibleName pg (Some el)) \<noteq> []"
    using assms(1,2) by (rule accessibleName_trim_nonempty)
  then have n: "accessibleName pg (Some el) \<noteq> []" by (rule trim_Nil_imp)
  have "filter (survives pg) (querySelectorAll_interactables pg) =
      filter (\<lambda>c. isVisible (Some c)) (querySelectorAll_interactables pg)"
    using assms(3) by (intro filter_cong refl) (simp add: survives_visible)
  then have s: "scanned_items pg limit =
      take (scan_bound limit)
        (map (\<lambda>c. make_item pg c (accessibleName pg (Some c)))
           (filter (\<lambda>c. isVisible (Some c)) (querySelectorAll_interactables pg)))"
    by (simp only: scanned_items_collected)
  from n t s show ?thesis by (intro conjI)
qed

theorem accessibleName_never_empty_witness:
  "nodeType bare_div = 1 \<and> valid_tagName (tagName bare_div) \<and>
   accessibleName (example_page [bare_div]) (Some bare_div) = ''div'' \<and>
   scanned_items (example_page [bare_div]) 60 =
     [make_item (example_page [bare_div]) bare_div ''div'']"
proof -
  have a: "nodeType bare_div = 1" by (simp add: example_defs)
  have b: "valid_tagName (tagName bare_div)"
    by (simp add: example_defs valid_tagName_def isSpace_def)
  have c: "\<forall>c \<in> set (querySelectorAll_interactables (example_page [bare_div])).
      valid_tagName (tagName c)"
    using b by (simp add: cands_example)
  have d: "accessibleName (example_page [bare_div]) (Some bare_div) = ''div''"
    by (rule name_div)
  from accessibleName_never_empty [OF a b c, of 60]
  have "scanned_items (example_page [bare_div]) 60 =
      take (scan_bound 60)
        (map (\<lambda>c. make_item (example_page [bare_div]) c
                     (accessibleName (example_page [bare_div]) (Some c)))
           (filter (\<lambda>c. isVisible (Some c))
              (querySelectorAll_interactables (example_page [bare_div]))))"
    by simp
  then have e: "scanned_items (example_page [bare_div]) 60 =
     [make_item (example_page [bare_div]) bare_div ''div'']"
    by (simp add: cands_example visible_examples name_div scan_bound_def)
  from a b d e show ?thesis by (intro conjI)
qed

section \<open>Ranking\<close>





lemma mset_insert_by: "mset (insert_by cmp x ys) = add_mset x (mset ys)"
  by (induction ys) simp_all

lemma mset_js_sort: "mset (js_sort cmp xs) = mset xs"
  by (induction xs) (simp_all add: js_sort_def mset_insert_by)








subsection \<open>Three pages\<close>















section \<open>Redaction of sensitive fields\<close>

lemma resolveTarget_element: "resolveTargetFromEvent e = Some t \<Longrightarrow> nodeType t = 1"
  by (auto simp: resolveTargetFromEvent_def find_Some_iff split: option.splits if_splits)

text \<open>
  The value field of the action sent for a change of a sensitive field is the marker.
\<close>

lemma value_field_redacted:
  assumes t: "resolveTargetFromEvent e = Some target"
    and s: "isSensitiveInput (Some target)"
    and o: "onChange pg fresh now_ms now_iso cs e = (cs', Some ev)"
  shows "ev_action ev = InputAction (elementRef pg (Some target)) ''<redacted>''"
proof -
  from s have tag:
    "toLowerCase (tagName target) = ''input'' \<or> toLowerCase (tagName target) = ''textarea''"
    by (auto simp: isSensitiveInput_def Let_def split: if_splits)
  then have nosel: "toLowerCase (tagName target) \<noteq> ''select''" by auto
  from o t s tag nosel show ?thesis
    by (auto simp: onChange_def Let_def sendEvent_def split: if_splits)
qed

lemma password_target: "resolveTargetFromEvent password_change = Some password_input"
  by (simp add: resolveTargetFromEvent_def password_change_def example_defs)

lemma password_sensitive: "isSensitiveInput (Some password_input)"
  by (simp add: isSensitiveInput_def example_defs lower_examples getAttribute_def or_empty_def)

text \<open>
  Claim C2 asks that the input action sent for a change of a sensitive field never
  contains the typed value. Here \<open>hunter2\<close> is typed into a password field that has no
  label, title or placeholder: the value field of the action is the marker, but the
  reference to the target, sent in the same action, names the field by its current
  value.
\<close>

theorem password_change_carries_typed_value:
  "el_value password_input = ''hunter2'' \<and>
   isSensitiveInput (Some password_input) \<and>
   snd (onChange (example_page []) () 0 [] enabled_state password_change) =
     Some \<lparr> ev_kind = ''step'',
            ev_action =
              InputAction
                (Some \<lparr> ref_tag = ''input'', ref_attrs = [(''type'', ''password'')],
                        ref_css = None, ref_xpath = None, ref_name = Some ''hunter2'',
                        ref_role = None,
                        ref_bbox = \<lparr> rect_x = 10, rect_y = 50, rect_width = 120,
                                     rect_height = 30 \<rparr> \<rparr>)
                ''<redacted>'',
            ev_pre = (), ev_t_ms = 0, ev_t_iso = [] \<rparr>"
proof -
  have v: "el_value password_input = ''hunter2''" by (simp add: example_defs)
  have n: "accessibleName (example_page []) (Some password_input) = ''hunter2''"
    by (simp add: first_nonempty_candidates [symmetric] example_defs) code_simp
  have r: "elementRef (example_page []) (Some password_input) =
      Some \<lparr> ref_tag = ''input'', ref_attrs = [(''type'', ''password'')],
             ref_css = None, ref_xpath = None, ref_name = Some ''hunter2'', ref_role = None,
             ref_bbox = \<lparr> rect_x = 10, rect_y = 50, rect_width = 120, rect_height = 30 \<rparr> \<rparr>"
    by (simp add: elementRef_def n or_null_def)
      (simp add: example_defs lower_examples safeAttrs_def safeAttrs_keys_def getAttribute_def
        or_undefined_def truthy_def)
  have t: "toLowerCase (tagName password_input) = ''input''"
    by (simp add: example_defs lower_examples)
  have o: "snd (onChange (example_page []) () 0 [] enabled_state password_change) =
      Some \<lparr> ev_kind = ''step'',
             ev_action = InputAction (elementRef (example_page []) (Some password_input))
                           ''<redacted>'',
             ev_pre = (), ev_t_ms = 0, ev_t_iso = [] \<rparr>"
    by (simp add: onChange_def password_target password_sensitive t Let_def sendEvent_def
        enabled_state_def)
  from v password_sensitive o [unfolded r] show ?thesis by (intro conjI)
qed

section \<open>Keys of step rows\<close>


lemma digit_char_is_digit: "d < 10 \<Longrightarrow> is_digit (digit_char d)"
  by (simp add: digit_char_def is_digit_def nth_Cons' )

lemma digit_char_inj: "a < 10 \<Longrightarrow> b < 10 \<Longrightarrow> digit_char a = digit_char b \<Longrightarrow> a = b"
proof -
  assume a: "a < 10" and b: "b < 10" and e: "digit_char a = digit_char b"
  have d: "distinct ''0123456789''" by simp
  have "a < length ''0123456789''" "b < length ''0123456789''" using a b by simp_all
  with d e show "a = b" unfolding digit_char_def by (simp only: nth_eq_iff_index_eq)
qed

lemma String_of_nat_digits: "list_all is_digit (String_of_nat n)"
proof (induction n rule: String_of_nat.induct)
  case (1 n)
  show ?case
  proof (cases "n < 10")
    case True
    then show ?thesis by (subst String_of_nat.simps) (simp add: digit_char_is_digit)
  next
    case False
    with 1 have "list_all is_digit (String_of_nat (n div 10))" by simp
    with False show ?thesis
      by (subst String_of_nat.simps) (simp add: digit_char_is_digit)
  qed
qed

lemma String_of_nat_nonempty: "String_of_nat n \<noteq> []"
  by (subst String_of_nat.simps) simp

lemma String_of_nat_inj: "String_of_nat n = String_of_nat m \<Longrightarrow> n = m"
proof (induction n arbitrary: m rule: String_of_nat.induct)
  case (1 n)
  show ?case
  proof (cases "n < 10")
    case n: True
    show ?thesis
    proof (cases "m < 10")
      case True
      with n 1(2) have "digit_char n = digit_char m"
        by (simp add: String_of_nat.simps [of n] String_of_nat.simps [of m])
      with n True show ?thesis by (rule digit_char_inj)
    next
      case False
      with n 1(2) have "[digit_char n] = String_of_nat (m div 10) @ [digit_char (m mod 10)]"
        by (simp add: String_of_nat.simps [of n] String_of_nat.simps [of m])
      then have "String_of_nat (m div 10) = []" by simp
      then show ?thesis by (simp add: String_of_nat_nonempty)
    qed
  next
    case n: False
    show ?thesis
    proof (cases "m < 10")
      case True
      with n 1(2) have "String_of_nat (n div 10) @ [digit_char (n mod 10)] = [digit_char m]"
        by (simp add: String_of_nat.simps [of n] String_of_nat.simps [of m])
      then have "String_of_nat (n div 10) = []" by simp
      then show ?thesis by (simp add: String_of_nat_nonempty)
    next
      case False
      with n 1(2) have e: "String_of_nat (n div 10) @ [digit_char (n mod 10)] =
          String_of_nat (m div 10) @ [digit_char (m mod 10)]"
        by (simp add: String_of_nat.simps [of n] String_of_nat.simps [of m])
      then have a: "String_of_nat (n div 10) = String_of_nat (m div 10)"
        and b: "digit_char (n mod 10) = digit_char (m mod 10)" by simp_all
      from 1(1) [OF n a] have "n div 10 = m div 10" .
      moreover from b have "n mod 10 = m mod 10" by (simp add: digit_char_inj)
      ultimately show ?thesis by (metis div_mult_mod_eq)
    qed
  qed
qed

lemma colon_not_digit: "\<not> is_digit CHR '':''"
  by (simp add: is_digit_def)

lemma split_last_colon:
  assumes "a @ CHR '':'' # s = b @ CHR '':'' # t"
    and "CHR '':'' \<notin> set s" and "CHR '':'' \<notin> set t"
  shows "a = b \<and> s = t"
proof -
  have tw: "takeWhile (\<lambda>c. c \<noteq> CHR '':'') (rev (x @ CHR '':'' # u)) = rev u"
    if "CHR '':'' \<notin> set u" for x u
  proof -
    have "takeWhile (\<lambda>c. c \<noteq> CHR '':'') (rev u @ CHR '':'' # rev x) =
        rev u @ takeWhile (\<lambda>c. c \<noteq> CHR '':'') (CHR '':'' # rev x)"
      by (rule takeWhile_append2) (use that in auto)
    then show ?thesis by simp
  qed
  from assms(1) have "takeWhile (\<lambda>c. c \<noteq> CHR '':'') (rev (a @ CHR '':'' # s)) =
      takeWhile (\<lambda>c. c \<noteq> CHR '':'') (rev (b @ CHR '':'' # t))" by simp
  then have "rev s = rev t" using tw [OF assms(2)] tw [OF assms(3)] by simp
  then have st: "s = t" by simp
  with assms(1) show ?thesis by simp
qed

lemma make_step_key_inj:
  "make_step_key e n = make_step_key e' n' \<longleftrightarrow> e = e' \<and> n = n'"
proof
  assume k: "make_step_key e n = make_step_key e' n'"
  have c: "CHR '':'' \<notin> set (String_of_nat m)" for m
    using String_of_nat_digits [of m] colon_not_digit by (auto simp: list_all_iff)
  from k have "e @ CHR '':'' # String_of_nat n = e' @ CHR '':'' # String_of_nat n'"
    by (simp add: make_step_key_def)
  from split_last_colon [OF this c c] show "e = e' \<and> n = n'"
    by (auto dest: String_of_nat_inj)
qed simp

section \<open>Stores\<close>

lemma set_store_put: "set (store_put key v xs) = insert v {x \<in> set xs. key x \<noteq> key v}"
  by (auto simp: store_put_def set_insort_key)

lemma distinct_store_put:
  "distinct (map key xs) \<Longrightarrow> distinct (map key (store_put key v xs))"
  by (auto simp: store_put_def distinct_insort_key distinct_map_filter)

lemma filter_store_put_other:
  assumes "\<not> P v" and "\<forall>x \<in> set xs. P x \<longrightarrow> key x \<noteq> key v"
  shows "filter P (store_put key v xs) = filter P xs"
proof -
  have "filter P (store_put key v xs) = filter P (filter (\<lambda>x. key x \<noteq> key v) xs)"
    using assms(1) by (simp add: store_put_def filter_insort_triv)
  also have "\<dots> = filter P xs"
    using assms(2) by (auto intro: filter_cong)
  finally show ?thesis .
qed

lemma store_get_Some: "store_get key k xs = Some x \<Longrightarrow> x \<in> set xs \<and> key x = k"
  by (auto simp: store_get_def find_Some_iff)

lemma store_get_None: "store_get key k xs = None \<longleftrightarrow> (\<forall>x \<in> set xs. key x \<noteq> k)"
  by (auto simp: store_get_def find_None_iff)

lemma find_filter: "find P xs = (case filter P xs of [] \<Rightarrow> None | x # ys \<Rightarrow> Some x)"
  by (induction xs) simp_all

lemma store_get_put_other:
  assumes "k \<noteq> key v"
  shows "store_get key k (store_put key v xs) = store_get key k xs"
proof -
  have "filter (\<lambda>x. key x = k) (store_put key v xs) = filter (\<lambda>x. key x = k) xs"
    using assms by (intro filter_store_put_other) auto
  then show ?thesis by (simp add: store_get_def find_filter)
qed

lemma filter_insort_only:
  "\<forall>x \<in> set ys. \<not> P x \<Longrightarrow> P v \<Longrightarrow> filter P (insort_key f v ys) = [v]"
  by (induction ys) simp_all

lemma store_get_put_same: "store_get key (key v) (store_put key v xs) = Some v"
proof -
  have "filter (\<lambda>x. key x = key v) (store_put key v xs) = [v]"
    unfolding store_put_def by (rule filter_insort_only) simp_all
  then show ?thesis by (simp add: store_get_def find_filter)
qed

lemma store_get_delete: "store_get key k (store_delete key k' xs) = (if k = k' then None else store_get key k xs)"
proof (cases "k = k'")
  case True
  then show ?thesis by (simp add: store_get_None store_delete_def)
next
  case False
  then have "filter (\<lambda>x. key x = k) (store_delete key k' xs) = filter (\<lambda>x. key x = k) xs"
    by (auto simp: store_delete_def intro: filter_cong)
  with False show ?thesis by (simp add: store_get_def find_filter)
qed

section \<open>Sorting by step number\<close>

lemma insert_by_key:
  "insert_by (\<lambda>a b. real (k a) - real (k b)) x ys = insort_key k x ys"
  by (induction ys) simp_all

lemma js_sort_key: "js_sort (\<lambda>a b. real (k a) - real (k b)) xs = sort_key k xs"
  by (induction xs) (simp_all add: js_sort_def insert_by_key)

lemma steps_for_episode:
  "idbGetStepsForEpisode w e = sort_key row_step_number (filter (\<lambda>r. episode_id r = e) (steps_store w))"
  by (simp add: idbGetStepsForEpisode_def js_sort_key)

section \<open>How each operation changes the worker\<close>

lemma truthy_Some: "truthy v \<longleftrightarrow> (\<exists>e. v = Some e \<and> e \<noteq> [])"
  by (cases v) (simp_all add: truthy_def)

lemma fold_delete_steps:
  "fold (\<lambda>r v. v \<lparr> steps_store := store_delete step_key (step_key r) (steps_store v) \<rparr>) rs w =
   w \<lparr> steps_store := filter (\<lambda>x. step_key x \<notin> step_key ` set rs) (steps_store w) \<rparr>"
proof (induction rs arbitrary: w)
  case Nil
  show ?case by simp
next
  case (Cons r rs)
  let ?f = "\<lambda>r v. v \<lparr> steps_store := store_delete step_key (step_key r) (steps_store v) \<rparr>"
  have aux: "filter (\<lambda>x. step_key x \<notin> step_key ` set rs) (filter (\<lambda>x. step_key x \<noteq> step_key r) xs) =
      filter (\<lambda>x. step_key x \<notin> step_key ` set (r # rs)) xs" for xs :: "step_row list"
    by (induction xs) auto
  have "fold ?f (r # rs) w = fold ?f rs (?f r w)" by simp
  also have "\<dots> = (?f r w) \<lparr> steps_store :=
      filter (\<lambda>x. step_key x \<notin> step_key ` set rs) (steps_store (?f r w)) \<rparr>"
    by (rule Cons.IH)
  also have "\<dots> = w \<lparr> steps_store :=
      filter (\<lambda>x. step_key x \<notin> step_key ` set (r # rs)) (steps_store w) \<rparr>"
    using aux [of "steps_store w"] by (simp add: store_delete_def)
  finally show ?case .
qed

lemma set_steps_for_episode:
  "set (idbGetStepsForEpisode w e) = {r \<in> set (steps_store w). episode_id r = e}"
  by (simp add: steps_for_episode)

lemma clearAll_cases:
  "clearAll w =
     (case active_episode w of
        None \<Rightarrow> w \<lparr> settings_store := Some cleared_settings \<rparr>
      | Some e \<Rightarrow>
          if e = [] then w \<lparr> settings_store := Some cleared_settings \<rparr>
          else w \<lparr> steps_store :=
                     filter (\<lambda>x. step_key x \<notin> step_key ` {r \<in> set (steps_store w). episode_id r = e})
                       (steps_store w),
                   episodes_store := store_delete ep_episode_id e (episodes_store w),
                   settings_store := Some cleared_settings \<rparr>)"
  by (auto simp: clearAll_def active_episode_def getSettings_def setSettings_def Let_def
      fold_delete_steps set_steps_for_episode truthy_def or_empty_def split: option.splits)

lemma startRecording_worker:
  "fst (startRecording ev opts w) =
     w \<lparr> episodes_store :=
           store_put ep_episode_id
             \<lparr> ep_episode_id = env_uuid ev, ep_created_at = env_now_iso ev,
               ep_browser_name = ''chromium'', ep_origin_type = ''extension_mvp'',
               ep_origin_build = ''0.1.0'' \<rparr> (episodes_store w),
         settings_store := settings_store (fst (startRecording ev opts w)) \<rparr>"
  by (simp add: startRecording_def Let_def setSettings_def)

lemma startRecording_settings:
  "\<exists>st. settings_store (fst (startRecording ev opts w)) = Some st \<and>
        isRecording st \<and> episodeId st = Some (env_uuid ev) \<and> stepCount st = 0"
  by (simp add: startRecording_def Let_def setSettings_def)

lemma stopRecording_worker:
  "fst (stopRecording w) = w \<or>
   (\<exists>st. settings_store w = Some st \<and>
      fst (stopRecording w) = w \<lparr> settings_store := Some (st \<lparr> isRecording := False,
                                     lastMessage := ''Recording stopped.'' \<rparr>) \<rparr>)"
  by (auto simp: stopRecording_def getSettings_def setSettings_def Let_def split: option.splits)

lemma setOptions_worker:
  "\<exists>st'. fst (setOptions opts w) = w \<lparr> settings_store := Some st' \<rparr> \<and>
      episodeId st' = active_episode w \<and>
      stepCount st' = (case settings_store w of None \<Rightarrow> 0 | Some st \<Rightarrow> stepCount st)"
  by (auto simp: setOptions_def getSettings_def setSettings_def Let_def active_episode_def
      absent_settings_def split: option.splits)

lemma onCommitted_worker:
  "onCommitted d w = w \<or>
   (\<exists>st. settings_store w = Some st \<and>
      onCommitted d w = w \<lparr> settings_store := Some (st \<lparr> lastMessage := ''Navigation: '' @ nav_url d \<rparr>) \<rparr>)"
  by (auto simp: onCommitted_def getSettings_def setSettings_def split: option.splits)

text \<open>A step event either changes nothing or puts one row and bumps the counter.\<close>

lemma step_read_cases:
  "(\<exists>r. step_read ev sndr event w = Done r \<and> (r = NoResponse \<or> (\<exists>m. r = ErrorResponse m))) \<or>
   (\<exists>st e row tm. settings_store w = Some st \<and> isRecording st \<and> episodeId st = Some e \<and> e \<noteq> [] \<and>
      step_read ev sndr event w = AtPut st (stepCount st) row tm \<and>
      step_key row = make_step_key e (stepCount st) \<and> episode_id row = e \<and>
      row_step_number row = stepCount st \<and> step_number (step row) = stepCount st \<and>
      post (step row) = None \<and> derived (step row) = None \<and>
      tm_episodeId tm = e \<and> tm_stepNumber tm = stepCount st)"
  unfolding step_read_def getSettings_def
  by (auto simp: Let_def truthy_Some or_empty_def split: option.splits)

lemma handle_step_event_cases:
  "(fst (handle_step_event ev sndr event w) = w \<and>
      (snd (handle_step_event ev sndr event w) = NoResponse \<or>
       (\<exists>m. snd (handle_step_event ev sndr event w) = ErrorResponse m))) \<or>
   (\<exists>st e row tm. settings_store w = Some st \<and> isRecording st \<and> episodeId st = Some e \<and> e \<noteq> [] \<and>
      step_key row = make_step_key e (stepCount st) \<and> episode_id row = e \<and>
      row_step_number row = stepCount st \<and> step_number (step row) = stepCount st \<and>
      post (step row) = None \<and> derived (step row) = None \<and>
      tm_episodeId tm = e \<and> tm_stepNumber tm = stepCount st \<and>
      snd (handle_step_event ev sndr event w) = StepResponse (stepCount st) \<and>
      fst (handle_step_event ev sndr event w) =
        w \<lparr> steps_store := store_put step_key row (steps_store w),
            timers := timers w @ [tm],
            settings_store := Some (st \<lparr> stepCount := stepCount st + 1,
               lastMessage := ''Recorded step '' @ String_of_nat (stepCount st) @ ''.'' \<rparr>) \<rparr>)"
proof -
  from step_read_cases [of ev sndr event w]
  consider (halted) r where "step_read ev sndr event w = Done r"
      "r = NoResponse \<or> (\<exists>m. r = ErrorResponse m)"
    | (putting) st e row tm where "settings_store w = Some st" "isRecording st"
      "episodeId st = Some e" "e \<noteq> []"
      "step_read ev sndr event w = AtPut st (stepCount st) row tm"
      "step_key row = make_step_key e (stepCount st)" "episode_id row = e"
      "row_step_number row = stepCount st" "step_number (step row) = stepCount st"
      "post (step row) = None" "derived (step row) = None"
      "tm_episodeId tm = e" "tm_stepNumber tm = stepCount st"
    by blast
  then show ?thesis
  proof cases
    case halted
    then show ?thesis by (auto simp: handle_step_event_def response_of_def)
  next
    case putting
    have "handle_step_event ev sndr event w =
        (w \<lparr> steps_store := store_put step_key row (steps_store w),
            timers := timers w @ [tm],
            settings_store := Some (st \<lparr> stepCount := stepCount st + 1,
               lastMessage := ''Recorded step '' @ String_of_nat (stepCount st) @ ''.'' \<rparr>) \<rparr>,
         StepResponse (stepCount st))"
      by (simp add: handle_step_event_def putting(5) setSettings_def response_of_def)
    with putting show ?thesis by (intro disjI2 exI [of _ st] exI [of _ e] exI [of _ row] exI [of _ tm]) simp
  qed
qed

lemma postCapture_cases:
  "(fst (postCapture pe tm w) = w \<and> snd (postCapture pe tm w) \<noteq> Finalized) \<or>
   (\<exists>row p d. store_get step_key (make_step_key (tm_episodeId tm) (tm_stepNumber tm)) (steps_store w) = Some row \<and>
      active_episode w = Some (tm_episodeId tm) \<and>
      snd (postCapture pe tm w) = Finalized \<and>
      fst (postCapture pe tm w) =
        w \<lparr> steps_store := store_put step_key (row \<lparr> step := (step row) \<lparr> post := Some p, derived := Some d \<rparr> \<rparr>)
               (steps_store w) \<rparr>)"
  unfolding postCapture_def getSettings_def active_episode_def
  by (auto simp: Let_def split: option.splits)

section \<open>The invariant\<close>

lemma rows_wf_iff:
  "rows_wf w \<longleftrightarrow> (\<forall>r \<in> set (steps_store w).
      step_key r = make_step_key (episode_id r) (row_step_number r) \<and>
      step_number (step r) = row_step_number r)"
  by (simp add: rows_wf_def list_all_iff)

lemma worker_inv_settings:
  assumes "worker_inv w"
    and "episodeId st' = None \<or>
         (\<exists>st. settings_store w = Some st \<and> episodeId st' = episodeId st \<and> stepCount st' = stepCount st)"
  shows "worker_inv (w \<lparr> settings_store := Some st' \<rparr>)"
  using assms
  by (auto simp: worker_inv_def rows_wf_def keys_distinct_def count_ok_def rows_of_def
      split: option.splits)

lemma inv_initial: "worker_inv initial_worker"
  by (simp add: initial_worker_def init_def empty_worker_def getSettings_def setSettings_def
      initial_settings_def worker_inv_def rows_wf_def keys_distinct_def count_ok_def)

lemma inv_clearAll: "worker_inv w \<Longrightarrow> worker_inv (clearAll w)"
  by (auto simp: clearAll_cases worker_inv_def rows_wf_def keys_distinct_def count_ok_def
      cleared_settings_def list_all_iff distinct_map_filter split: option.splits)

lemma inv_startRecording:
  assumes "worker_inv w" and "fresh_episode_id w (env_uuid ev)"
  shows "worker_inv (fst (startRecording ev opts w))"
proof -
  obtain st where st: "settings_store (fst (startRecording ev opts w)) = Some st"
    "episodeId st = Some (env_uuid ev)" "stepCount st = 0"
    using startRecording_settings [of ev opts w] by blast
  have "rows_of w (env_uuid ev) = []"
    using assms(2) by (force simp: fresh_episode_id_def rows_of_def filter_empty_conv)
  then show ?thesis
    using assms(1) st
    by (subst startRecording_worker)
       (simp add: worker_inv_def rows_wf_def keys_distinct_def count_ok_def rows_of_def)
qed

lemma inv_stopRecording: "worker_inv w \<Longrightarrow> worker_inv (fst (stopRecording w))"
  using stopRecording_worker [of w] by (auto intro!: worker_inv_settings)

lemma inv_setOptions: "worker_inv w \<Longrightarrow> worker_inv (fst (setOptions opts w))"
proof -
  assume i: "worker_inv w"
  obtain st' where s: "fst (setOptions opts w) = w \<lparr> settings_store := Some st' \<rparr>"
    "episodeId st' = active_episode w"
    "stepCount st' = (case settings_store w of None \<Rightarrow> 0 | Some st \<Rightarrow> stepCount st)"
    using setOptions_worker [of opts w] by blast
  have "worker_inv (w \<lparr> settings_store := Some st' \<rparr>)"
    using i
  proof (rule worker_inv_settings)
    show "episodeId st' = None \<or>
         (\<exists>st. settings_store w = Some st \<and> episodeId st' = episodeId st \<and> stepCount st' = stepCount st)"
      using s(2,3) by (cases "settings_store w") (simp_all add: active_episode_def)
  qed
  with s(1) show ?thesis by simp
qed

lemma inv_onCommitted: "worker_inv w \<Longrightarrow> worker_inv (onCommitted d w)"
  using onCommitted_worker [of d w] by (auto intro!: worker_inv_settings)

lemma same_key_same_row:
  assumes "rows_wf w" and "r \<in> set (steps_store w)"
  shows "step_key r = make_step_key e n \<longleftrightarrow> episode_id r = e \<and> row_step_number r = n"
  using assms by (auto simp: rows_wf_iff make_step_key_inj)

lemma inv_handle_step_event:
  assumes i: "worker_inv w"
  shows "worker_inv (fst (handle_step_event ev sndr event w))"
proof -
  from handle_step_event_cases [of ev sndr event w]
  consider (same) "fst (handle_step_event ev sndr event w) = w"
    | (putting) st e row tm where "settings_store w = Some st" "episodeId st = Some e"
      "step_key row = make_step_key e (stepCount st)" "episode_id row = e"
      "row_step_number row = stepCount st" "step_number (step row) = stepCount st"
      "fst (handle_step_event ev sndr event w) =
        w \<lparr> steps_store := store_put step_key row (steps_store w),
            timers := timers w @ [tm],
            settings_store := Some (st \<lparr> stepCount := stepCount st + 1,
               lastMessage := ''Recorded step '' @ String_of_nat (stepCount st) @ ''.'' \<rparr>) \<rparr>"
    by blast
  then show ?thesis
  proof cases
    case same
    with i show ?thesis by simp
  next
    case putting
    let ?n = "stepCount st"
    have wf: "rows_wf w" and kd: "keys_distinct w" and co: "count_ok w"
      using i by (simp_all add: worker_inv_def)
    have old: "row_step_number ` {r \<in> set (steps_store w). episode_id r = e} = {0 ..< ?n}"
      using co putting(1,2) by (simp add: count_ok_def rows_of_def)
    have keep: "{x \<in> set (steps_store w). step_key x \<noteq> step_key row \<and> episode_id x = e} =
        {x \<in> set (steps_store w). episode_id x = e \<and> row_step_number x \<noteq> ?n}"
      using same_key_same_row [OF wf] putting(3) by auto
    have "row_step_number ` {x \<in> set (steps_store w). episode_id x = e \<and> row_step_number x \<noteq> ?n}
        = row_step_number ` {r \<in> set (steps_store w). episode_id r = e} - {?n}"
      by auto
    then have rest: "row_step_number ` {x \<in> set (steps_store w). episode_id x = e \<and> row_step_number x \<noteq> ?n}
        = {0 ..< ?n}"
      using old by simp
    have split_put: "{r \<in> set (store_put step_key row (steps_store w)). episode_id r = e} =
        insert row {x \<in> set (steps_store w). step_key x \<noteq> step_key row \<and> episode_id x = e}"
      using putting(4) by (auto simp: set_store_put)
    have new: "row_step_number ` {r \<in> set (store_put step_key row (steps_store w)). episode_id r = e}
        = {0 ..< ?n + 1}"
      unfolding split_put keep image_insert rest putting(5) by auto
    have wf': "list_all (\<lambda>r. step_key r = make_step_key (episode_id r) (row_step_number r) \<and>
                   step_number (step r) = row_step_number r) (store_put step_key row (steps_store w))"
      using wf putting(3-6) by (auto simp: rows_wf_iff list_all_iff set_store_put)
    have kd': "distinct (map step_key (store_put step_key row (steps_store w)))"
      using kd by (simp add: keys_distinct_def distinct_store_put)
    show ?thesis
      using wf' kd' new putting(2)
      by (simp add: putting(7) worker_inv_def rows_wf_def keys_distinct_def count_ok_def rows_of_def)
  qed
qed

lemma inv_postCapture:
  assumes i: "worker_inv w"
  shows "worker_inv (fst (postCapture pe tm w))"
proof -
  from postCapture_cases [of pe tm w]
  consider (same) "fst (postCapture pe tm w) = w"
    | (final) row p d where
      "store_get step_key (make_step_key (tm_episodeId tm) (tm_stepNumber tm)) (steps_store w) = Some row"
      "fst (postCapture pe tm w) =
        w \<lparr> steps_store := store_put step_key (row \<lparr> step := (step row) \<lparr> post := Some p, derived := Some d \<rparr> \<rparr>)
               (steps_store w) \<rparr>"
    by blast
  then show ?thesis
  proof cases
    case same
    with i show ?thesis by simp
  next
    case final
    let ?row' = "row \<lparr> step := (step row) \<lparr> post := Some p, derived := Some d \<rparr> \<rparr>"
    have wf: "rows_wf w" and kd: "keys_distinct w" and co: "count_ok w"
      using i by (simp_all add: worker_inv_def)
    have rin: "row \<in> set (steps_store w)" using final(1) by (auto dest: store_get_Some)
    have rw: "step_key row = make_step_key (episode_id row) (row_step_number row)"
      "step_number (step row) = row_step_number row"
      using wf rin by (auto simp: rows_wf_iff)
    have same: "episode_id x = episode_id row \<and> row_step_number x = row_step_number row"
      if "x \<in> set (steps_store w)" "step_key x = step_key row" for x
      using same_key_same_row [OF wf that(1), of "episode_id row" "row_step_number row"] that(2) rw(1)
      by simp
    have sp: "set (store_put step_key ?row' (steps_store w)) =
        insert ?row' {x \<in> set (steps_store w). step_key x \<noteq> step_key row}"
      by (simp add: set_store_put)
    have nums: "row_step_number ` {r \<in> set (store_put step_key ?row' (steps_store w)). episode_id r = e}
        = row_step_number ` {r \<in> set (steps_store w). episode_id r = e}" for e
    proof (intro set_eqI iffI)
      fix n
      assume "n \<in> row_step_number ` {r \<in> set (store_put step_key ?row' (steps_store w)). episode_id r = e}"
      then obtain r where r: "r \<in> set (store_put step_key ?row' (steps_store w))"
        "episode_id r = e" "n = row_step_number r" by auto
      from r(1) sp have "r = ?row' \<or> r \<in> set (steps_store w)" by auto
      then show "n \<in> row_step_number ` {r \<in> set (steps_store w). episode_id r = e}"
      proof
        assume "r = ?row'"
        with r(2,3) have "episode_id row = e" "n = row_step_number row" by simp_all
        with rin show ?thesis by auto
      next
        assume "r \<in> set (steps_store w)"
        with r(2,3) show ?thesis by auto
      qed
    next
      fix n
      assume "n \<in> row_step_number ` {r \<in> set (steps_store w). episode_id r = e}"
      then obtain x where x: "x \<in> set (steps_store w)" "episode_id x = e" "n = row_step_number x"
        by auto
      show "n \<in> row_step_number ` {r \<in> set (store_put step_key ?row' (steps_store w)). episode_id r = e}"
      proof (cases "step_key x = step_key row")
        case True
        from same [OF x(1) True] x(2,3) have "episode_id ?row' = e" "n = row_step_number ?row'"
          by simp_all
        moreover have "?row' \<in> set (store_put step_key ?row' (steps_store w))" using sp by simp
        ultimately show ?thesis by blast
      next
        case False
        with x(1) sp have "x \<in> set (store_put step_key ?row' (steps_store w))" by simp
        with x(2,3) show ?thesis by blast
      qed
    qed
    have wf': "list_all (\<lambda>r. step_key r = make_step_key (episode_id r) (row_step_number r) \<and>
                   step_number (step r) = row_step_number r) (store_put step_key ?row' (steps_store w))"
      using wf rw by (auto simp: rows_wf_iff list_all_iff set_store_put)
    have kd': "distinct (map step_key (store_put step_key ?row' (steps_store w)))"
      using kd by (simp add: keys_distinct_def distinct_store_put)
    have co': "count_ok (w \<lparr> steps_store := store_put step_key ?row' (steps_store w) \<rparr>)"
      using co by (simp add: count_ok_def rows_of_def nums split: option.splits)
    show ?thesis
      using wf' kd' co'
      by (simp add: final(2) worker_inv_def rows_wf_def keys_distinct_def)
  qed
qed

lemma rows_of_timers: "rows_of (w \<lparr> timers := ts \<rparr>) e = rows_of w e"
  by (simp add: rows_of_def)

lemma inv_timers_update: "worker_inv (w \<lparr> timers := ts \<rparr>) = worker_inv w"
  by (simp add: worker_inv_def rows_wf_def keys_distinct_def count_ok_def rows_of_timers
      cong: option.case_cong)

lemma fst_onMessage:
  "fst (onMessage ev RECORDER_GET_STATUS sndr w) = w"
  "fst (onMessage ev (RECORDER_START opts) sndr w) = fst (startRecording ev opts w)"
  "fst (onMessage ev RECORDER_STOP sndr w) = fst (stopRecording w)"
  "fst (onMessage ev RECORDER_CLEAR sndr w) = clearAll w"
  "fst (onMessage ev (RECORDER_SET_OPTIONS opts) sndr w) = fst (setOptions opts w)"
  "fst (onMessage ev RECORDER_EXPORT sndr w) = w"
  "fst (onMessage ev (RECORDER_EVENT event) sndr w) =
     (if se_kind event = ''step'' then fst (handle_step_event ev sndr event w) else w)"
  "fst (onMessage ev OtherMessage sndr w) = w"
  by (simp_all add: Let_def split: prod.splits)

lemma inv_apply_transition:
  assumes "worker_inv w" and "admissible t w"
  shows "worker_inv (apply_transition t w)"
proof (cases t)
  case (Message ev msg sndr)
  show ?thesis
  proof (cases msg)
    case (RECORDER_START opts)
    with Message assms show ?thesis by (simp add: fst_onMessage inv_startRecording del: onMessage.simps)
  next
    case (RECORDER_EVENT event)
    with Message assms show ?thesis by (simp add: fst_onMessage inv_handle_step_event del: onMessage.simps)
  qed (use Message assms in \<open>simp_all add: fst_onMessage inv_stopRecording inv_clearAll
      inv_setOptions del: onMessage.simps\<close>)
next
  case (TimerFires pe i)
  with assms show ?thesis by (simp add: inv_postCapture inv_timers_update)
next
  case (Navigation d)
  with assms show ?thesis by (simp add: inv_onCommitted)
qed

lemma reachable_inv: "reachable w \<Longrightarrow> worker_inv w"
  by (induction rule: reachable.induct) (simp_all add: inv_initial inv_apply_transition)

section \<open>Export\<close>

lemma export_episode_cases:
  assumes "export_episode w = ExportResponse out e n msg"
  shows "\<exists>st. settings_store w = Some st \<and> episodeId st = Some e \<and> e \<noteq> [] \<and>
      out_steps out = map step (idbGetStepsForEpisode w e) \<and>
      n = length (idbGetStepsForEpisode w e)"
  using assms unfolding export_episode_def getSettings_def
  by (auto simp: Let_def truthy_Some or_empty_def split: option.splits if_splits)

lemma steps_numbers_contiguous:
  assumes i: "worker_inv w" and st: "settings_store w = Some st" and e: "episodeId st = Some e"
  shows "map row_step_number (idbGetStepsForEpisode w e) = [0 ..< stepCount st]"
proof -
  let ?rows = "rows_of w e"
  let ?sorted = "idbGetStepsForEpisode w e"
  have wf: "rows_wf w" and kd: "keys_distinct w" and co: "count_ok w"
    using i by (simp_all add: worker_inv_def)
  have s: "?sorted = sort_key row_step_number ?rows"
    by (simp add: steps_for_episode rows_of_def)
  have keys: "map step_key ?rows = map (make_step_key e) (map row_step_number ?rows)"
    using wf by (auto simp: rows_of_def rows_wf_iff)
  have "distinct (map step_key ?rows)"
    using kd by (simp add: keys_distinct_def rows_of_def distinct_map_filter)
  then have d: "distinct (map row_step_number ?rows)"
    unfolding keys by (rule distinct_map [THEN iffD1, THEN conjunct1])
  have m: "mset (map row_step_number ?sorted) = mset (map row_step_number ?rows)"
    by (simp add: s)
  have d': "distinct (map row_step_number ?sorted)"
    using d mset_eq_imp_distinct_iff [OF m] by simp
  have so: "sorted (map row_step_number ?sorted)" by (simp add: s)
  have "set (map row_step_number ?rows) = {0 ..< stepCount st}"
    using co st e by (simp add: count_ok_def)
  with mset_eq_setD [OF m] have se: "set (map row_step_number ?sorted) = {0 ..< stepCount st}"
    by (simp only:)
  show ?thesis
    by (rule sorted_distinct_set_unique [OF so d']) (use se in simp_all)
qed

lemma exported_numbers:
  assumes "rows_wf w"
  shows "map step_number (map step (idbGetStepsForEpisode w e)) =
         map row_step_number (idbGetStepsForEpisode w e)"
  using assms by (auto simp: rows_wf_iff set_steps_for_episode)

text \<open>
  When messages, timers and navigations are carried out one at a time, the export's
  step count is also the counter of the settings.
\<close>

lemma export_matches_counter:
  assumes "reachable w"
    and "onMessage ev RECORDER_EXPORT sndr w = (w', ExportResponse out e n msg)"
  shows "w' = w \<and> active_episode w = Some e \<and>
    n = length (out_steps out) \<and>
    map step_number (out_steps out) = [0 ..< n] \<and>
    sorted_wrt (<) (map step_number (out_steps out)) \<and>
    (\<exists>st. settings_store w = Some st \<and> stepCount st = n) \<and>
    (\<forall>r \<in> set (steps_store w). episode_id r = e \<longrightarrow> step r \<in> set (out_steps out))"
proof -
  have i: "worker_inv w" using assms(1) by (rule reachable_inv)
  from assms(2) have w: "w' = w" by auto
  from assms(2) have x: "export_episode w = ExportResponse out e n msg" by auto
  from export_episode_cases [OF x] obtain st where st: "settings_store w = Some st"
    "episodeId st = Some e" "out_steps out = map step (idbGetStepsForEpisode w e)"
    "n = length (idbGetStepsForEpisode w e)" by blast
  have nums: "map step_number (out_steps out) = [0 ..< stepCount st]"
    using steps_numbers_contiguous [OF i st(1,2)] exported_numbers [of w e] i
    by (simp add: st(3) worker_inv_def)
  then have "length (map step_number (out_steps out)) = stepCount st" by simp
  then have n: "n = stepCount st" by (simp add: st(3,4))
  have a: "active_episode w = Some e" using st(1,2) by (simp add: active_episode_def)
  have l: "n = length (out_steps out)" by (simp add: st(3,4))
  have c: "map step_number (out_steps out) = [0 ..< n]" using nums n by simp
  have s: "sorted_wrt (<) (map step_number (out_steps out))"
    unfolding c by (simp add: sorted_wrt_upt)
  have ex: "\<exists>st. settings_store w = Some st \<and> stepCount st = n" using st(1) n by simp
  have p: "\<forall>r \<in> set (steps_store w). episode_id r = e \<longrightarrow> step r \<in> set (out_steps out)"
    by (simp add: st(3) set_steps_for_episode)
  from w a l c s ex p show ?thesis by (intro conjI)
qed

section \<open>Clear\<close>

lemma rows_of_clearAll:
  assumes "active_episode w = Some e" and "e \<noteq> []"
  shows "rows_of (clearAll w) e = []"
  using assms by (auto simp: clearAll_cases rows_of_def filter_empty_conv)

lemma episode_of_clearAll:
  assumes "active_episode w = Some e" and "e \<noteq> []"
  shows "store_get ep_episode_id e (episodes_store (clearAll w)) = None"
  using assms by (simp add: clearAll_cases store_get_delete)

lemma settings_clearAll: "settings_store (clearAll w) = Some cleared_settings"
  by (simp add: clearAll_cases split: option.splits)

lemma clearAll_twice: "clearAll (clearAll w) = clearAll w"
proof -
  have a: "active_episode (clearAll w) = None"
    by (simp add: active_episode_def settings_clearAll cleared_settings_def)
  have "clearAll (clearAll w) = (clearAll w) \<lparr> settings_store := Some cleared_settings \<rparr>"
    by (subst clearAll_cases) (simp add: a)
  also have "\<dots> = clearAll w"
    using settings_clearAll [of w] by (cases "clearAll w") simp
  finally show ?thesis .
qed

text \<open>
  Claim C5. Clearing twice gives the state that clearing once gives, and the same
  reply: after a clear the rows of the episode that was active and its metadata are
  gone, and the settings are the non-recording default (not recording, no episode, step
  counter 0, default options).
\<close>

theorem clear_idempotent:
  "clearAll (clearAll w) = clearAll w \<and>
   onMessage ev' RECORDER_CLEAR sndr' (clearAll w) = (clearAll w, snd (onMessage ev RECORDER_CLEAR sndr w)) \<and>
   settings_store (clearAll w) =
     Some \<lparr> isRecording = False, episodeId = None, startedAt = None, stepCount = 0,
            lastMessage = ''Cleared.'',
            options = \<lparr> captureScreenshots = Some True, captureDomState = Some True \<rparr> \<rparr> \<and>
   (\<forall>e. active_episode w = Some e \<and> e \<noteq> [] \<longrightarrow>
      rows_of (clearAll w) e = [] \<and>
      store_get ep_episode_id e (episodes_store (clearAll w)) = None)"
proof -
  have a: "clearAll (clearAll w) = clearAll w" by (rule clearAll_twice)
  have b: "onMessage ev' RECORDER_CLEAR sndr' (clearAll w) =
      (clearAll w, snd (onMessage ev RECORDER_CLEAR sndr w))"
    by (simp add: Let_def a)
  have c: "settings_store (clearAll w) =
     Some \<lparr> isRecording = False, episodeId = None, startedAt = None, stepCount = 0,
            lastMessage = ''Cleared.'',
            options = \<lparr> captureScreenshots = Some True, captureDomState = Some True \<rparr> \<rparr>"
    by (simp add: settings_clearAll cleared_settings_def default_options_def)
  have d: "\<forall>e. active_episode w = Some e \<and> e \<noteq> [] \<longrightarrow>
      rows_of (clearAll w) e = [] \<and>
      store_get ep_episode_id e (episodes_store (clearAll w)) = None"
    by (simp add: rows_of_clearAll episode_of_clearAll)
  from a b c d show ?thesis by (intro conjI)
qed

section \<open>The stale post-capture\<close>

text \<open>
  Claim C6. When a scheduled post-capture fires while the settings name no episode or
  another episode than the one it was scheduled for, it returns at once: the worker is
  unchanged (no row of any episode is created or changed) and nothing is raised.
\<close>

theorem stale_post_capture_abandoned:
  assumes "active_episode w \<noteq> Some (tm_episodeId tm)"
  shows "postCapture pe tm w = (w, Abandoned)"
proof (cases "settings_store w")
  case None
  then show ?thesis by (simp add: postCapture_def getSettings_def)
next
  case (Some st3)
  with assms have "episodeId st3 \<noteq> Some (tm_episodeId tm)"
    by (simp add: active_episode_def)
  with Some show ?thesis by (simp add: postCapture_def getSettings_def)
qed

section \<open>Start\<close>

text \<open>
  When the script cannot be injected into the active tab, \<open>startRecording\<close> still
  stores the new episode and settings that are recording, name the new episode and count
  0 steps; the status message of the stored settings is the warning with the error.
\<close>

lemma start_stores_warning:
  assumes "env_active_tab ev = Some tid" and "tid \<noteq> 0" and "env_injected ev = InjectFailed err"
  shows "settings_store (fst (startRecording ev opts w)) =
      Some \<lparr> isRecording = True, episodeId = Some (env_uuid ev),
             startedAt = Some (env_date_now ev), stepCount = 0,
             lastMessage = ''Recording started, but could not access the active tab: '' @ err,
             options = merge_options
               (case settings_store w of Some s \<Rightarrow> options s | None \<Rightarrow> empty_options)
               (case opts of Some p \<Rightarrow> p | None \<Rightarrow> empty_options) \<rparr> \<and>
    store_get ep_episode_id (env_uuid ev) (episodes_store (fst (startRecording ev opts w))) =
      Some \<lparr> ep_episode_id = env_uuid ev, ep_created_at = env_now_iso ev,
             ep_browser_name = ''chromium'', ep_origin_type = ''extension_mvp'',
             ep_origin_build = ''0.1.0'' \<rparr> \<and>
    steps_store (fst (startRecording ev opts w)) = steps_store w"
proof -
  let ?ep = "\<lparr> ep_episode_id = env_uuid ev, ep_created_at = env_now_iso ev,
             ep_browser_name = ''chromium'', ep_origin_type = ''extension_mvp'',
             ep_origin_build = ''0.1.0'' \<rparr>"
  have "store_get ep_episode_id (ep_episode_id ?ep) (store_put ep_episode_id ?ep (episodes_store w)) = Some ?ep"
    by (rule store_get_put_same)
  then have g: "store_get ep_episode_id (env_uuid ev) (store_put ep_episode_id ?ep (episodes_store w)) = Some ?ep"
    by simp
  show ?thesis
    using assms g by (simp add: startRecording_def Let_def setSettings_def getSettings_def)
qed

text \<open>The reply to the start request carries the success message in every case.\<close>

lemma start_reply_message: "sr_lastMessage (snd (startRecording ev opts w)) = ''Recording started.''"
  by (simp add: startRecording_def Let_def)

text \<open>
  Claim C8 asks that, when the script cannot be injected, a warning replaces the success
  message. Here recording is started from the popup while the injection into tab 7
  fails: recording starts and the stored settings hold the warning, but the reply to the
  start request, which is what the popup shows, says \<open>Recording started.\<close>
\<close>

theorem start_reply_keeps_success_message:
  "onMessage (failing_env ''A'') (RECORDER_START None) tab_sender initial_worker =
     (\<lparr> episodes_store =
          [\<lparr> ep_episode_id = ''A'', ep_created_at = ''2024-01-01T00:00:00.000Z'',
             ep_browser_name = ''chromium'', ep_origin_type = ''extension_mvp'',
             ep_origin_build = ''0.1.0'' \<rparr>],
        steps_store = [],
        settings_store =
          Some \<lparr> isRecording = True, episodeId = Some ''A'', startedAt = Some 0, stepCount = 0,
                 lastMessage =
                   ''Recording started, but could not access the active tab: Cannot access the page'',
                 options = \<lparr> captureScreenshots = Some True, captureDomState = Some True \<rparr> \<rparr>,
        timers = [] \<rparr>,
      StartResponse \<lparr> sr_episodeId = ''A'', sr_stepCount = 0,
                      sr_lastMessage = ''Recording started.'' \<rparr>)"
  by code_simp

section \<open>Episodes that are no longer active\<close>

lemma stored_iff: "e \<in> set (map ep_episode_id xs) \<longleftrightarrow> store_get ep_episode_id e xs \<noteq> None"
  by (auto simp: store_get_None)

lemma rows_of_put_other:
  assumes wf: "rows_wf w" and k: "step_key row = make_step_key a n" and ep: "episode_id row = a"
    and ne: "a \<noteq> e"
  shows "filter (\<lambda>r. episode_id r = e) (store_put step_key row (steps_store w)) = rows_of w e"
  unfolding rows_of_def
proof (rule filter_store_put_other)
  show "\<not> episode_id row = e" using ep ne by simp
  show "\<forall>x \<in> set (steps_store w). episode_id x = e \<longrightarrow> step_key x \<noteq> step_key row"
    using same_key_same_row [OF wf] k ne by auto
qed


lemma untouched_refl: "active_episode w \<noteq> Some e \<Longrightarrow> untouched e w w"
  by (simp add: untouched_def)

lemma untouched_settings:
  "active_episode w \<noteq> Some e \<Longrightarrow> episodeId st' = active_episode w \<Longrightarrow>
   untouched e w (w \<lparr> settings_store := Some st' \<rparr>)"
  by (simp add: untouched_def rows_of_def active_episode_def)

lemma untouched_clearAll:
  assumes wf: "rows_wf w" and na: "active_episode w \<noteq> Some e"
  shows "untouched e w (clearAll w)"
proof (cases "active_episode w")
  case None
  then show ?thesis
    by (simp add: clearAll_cases untouched_def rows_of_def active_episode_def cleared_settings_def)
next
  case (Some a)
  with na have ne: "a \<noteq> e" by simp
  show ?thesis
  proof (cases "a = []")
    case True
    with Some show ?thesis
      by (simp add: clearAll_cases untouched_def rows_of_def active_episode_def cleared_settings_def)
  next
    case False
    have keep: "\<forall>x \<in> set (steps_store w). episode_id x = e \<longrightarrow>
        step_key x \<notin> step_key ` {r \<in> set (steps_store w). episode_id r = a}"
    proof (intro ballI impI notI)
      fix x assume x: "x \<in> set (steps_store w)" "episode_id x = e"
        and "step_key x \<in> step_key ` {r \<in> set (steps_store w). episode_id r = a}"
      then obtain r where r: "r \<in> set (steps_store w)" "episode_id r = a" "step_key x = step_key r"
        by auto
      from wf r(1) have "step_key r = make_step_key (episode_id r) (row_step_number r)"
        by (simp add: rows_wf_iff)
      with same_key_same_row [OF wf x(1), of a "row_step_number r"] r(2,3) x(2) ne
      show False by simp
    qed
    have "filter (\<lambda>r. episode_id r = e)
        (filter (\<lambda>x. step_key x \<notin> step_key ` {r \<in> set (steps_store w). episode_id r = a}) (steps_store w))
        = filter (\<lambda>r. episode_id r = e) (steps_store w)"
      using keep by (auto intro: filter_cong)
    then show ?thesis
      using Some False ne
      by (simp add: clearAll_cases untouched_def rows_of_def active_episode_def cleared_settings_def
          store_get_delete)
  qed
qed

lemma untouched_startRecording:
  assumes "fresh_episode_id w (env_uuid ev)" and "e \<in> set (map ep_episode_id (episodes_store w))"
  shows "untouched e w (fst (startRecording ev opts w))"
proof -
  have ne: "e \<noteq> env_uuid ev" using assms by (force simp: fresh_episode_id_def)
  obtain st where st: "settings_store (fst (startRecording ev opts w)) = Some st"
    "episodeId st = Some (env_uuid ev)"
    using startRecording_settings [of ev opts w] by blast
  let ?ep = "\<lparr> ep_episode_id = env_uuid ev, ep_created_at = env_now_iso ev,
               ep_browser_name = ''chromium'', ep_origin_type = ''extension_mvp'',
               ep_origin_build = ''0.1.0'' \<rparr>"
  have g: "store_get ep_episode_id e (store_put ep_episode_id ?ep (episodes_store w)) =
      store_get ep_episode_id e (episodes_store w)"
    by (rule store_get_put_other) (use ne in simp)
  show ?thesis
    using st ne g
    by (subst startRecording_worker) (simp add: untouched_def rows_of_def active_episode_def)
qed

lemma untouched_handle_step_event:
  assumes wf: "rows_wf w" and na: "active_episode w \<noteq> Some e"
  shows "untouched e w (fst (handle_step_event ev sndr event w))"
proof -
  from handle_step_event_cases [of ev sndr event w]
  consider (same) "fst (handle_step_event ev sndr event w) = w"
    | (putting) st a row tm where "settings_store w = Some st" "episodeId st = Some a"
      "step_key row = make_step_key a (stepCount st)" "episode_id row = a"
      "fst (handle_step_event ev sndr event w) =
        w \<lparr> steps_store := store_put step_key row (steps_store w),
            timers := timers w @ [tm],
            settings_store := Some (st \<lparr> stepCount := stepCount st + 1,
               lastMessage := ''Recorded step '' @ String_of_nat (stepCount st) @ ''.'' \<rparr>) \<rparr>"
    by blast
  then show ?thesis
  proof cases
    case same
    with na show ?thesis by (simp add: untouched_refl)
  next
    case putting
    from na putting(1,2) have ne: "a \<noteq> e" by (auto simp: active_episode_def)
    from rows_of_put_other [OF wf putting(3,4) ne]
    show ?thesis
      using putting(1,2) ne
      by (simp add: putting(5) untouched_def rows_of_def active_episode_def)
  qed
qed

lemma untouched_postCapture:
  assumes wf: "rows_wf w" and na: "active_episode w \<noteq> Some e"
  shows "untouched e w (fst (postCapture pe tm w))"
proof -
  from postCapture_cases [of pe tm w]
  consider (same) "fst (postCapture pe tm w) = w"
    | (final) row p d where
      "store_get step_key (make_step_key (tm_episodeId tm) (tm_stepNumber tm)) (steps_store w) = Some row"
      "active_episode w = Some (tm_episodeId tm)"
      "fst (postCapture pe tm w) =
        w \<lparr> steps_store := store_put step_key (row \<lparr> step := (step row) \<lparr> post := Some p, derived := Some d \<rparr> \<rparr>)
               (steps_store w) \<rparr>"
    by blast
  then show ?thesis
  proof cases
    case same
    with na show ?thesis by (simp add: untouched_refl)
  next
    case final
    let ?row' = "row \<lparr> step := (step row) \<lparr> post := Some p, derived := Some d \<rparr> \<rparr>"
    from na final(2) have ne: "tm_episodeId tm \<noteq> e" by auto
    from final(1) have rin: "row \<in> set (steps_store w)"
      and rk: "step_key row = make_step_key (tm_episodeId tm) (tm_stepNumber tm)"
      by (auto dest: store_get_Some)
    from same_key_same_row [OF wf rin, of "tm_episodeId tm" "tm_stepNumber tm"] rk
    have re: "episode_id row = tm_episodeId tm" by simp
    have "filter (\<lambda>r. episode_id r = e) (store_put step_key ?row' (steps_store w)) = rows_of w e"
      by (rule rows_of_put_other [OF wf _ _ ne, of _ "tm_stepNumber tm"]) (simp_all add: rk re)
    then show ?thesis
      using na by (simp add: final(3) untouched_def rows_of_def active_episode_def)
  qed
qed

lemma untouched_timers:
  "untouched e (w \<lparr> timers := ts \<rparr>) w' = untouched e w w'"
  by (simp add: untouched_def rows_of_def active_episode_def)

lemma rows_wf_timers: "rows_wf (w \<lparr> timers := ts \<rparr>) = rows_wf w"
  by (simp add: rows_wf_def)

lemma active_timers: "active_episode (w \<lparr> timers := ts \<rparr>) = active_episode w"
  by (simp add: active_episode_def)

lemma untouched_apply_transition:
  assumes i: "worker_inv w" and ad: "admissible t w"
    and stored: "e \<in> set (map ep_episode_id (episodes_store w))"
    and na: "active_episode w \<noteq> Some e"
  shows "untouched e w (apply_transition t w)"
proof -
  have wf: "rows_wf w" using i by (simp add: worker_inv_def)
  show ?thesis
  proof (cases t)
    case (Message ev msg sndr)
    show ?thesis
    proof (cases msg)
      case RECORDER_GET_STATUS
      with Message na show ?thesis by (simp add: untouched_refl)
    next
      case (RECORDER_START opts)
      with Message ad stored show ?thesis
        by (simp add: fst_onMessage untouched_startRecording del: onMessage.simps)
    next
      case RECORDER_STOP
      from stopRecording_worker [of w] na have "untouched e w (fst (stopRecording w))"
        by (auto simp: untouched_refl active_episode_def intro!: untouched_settings)
      with Message RECORDER_STOP show ?thesis
        by (simp add: fst_onMessage del: onMessage.simps)
    next
      case RECORDER_CLEAR
      with Message wf na show ?thesis
        by (simp add: fst_onMessage untouched_clearAll del: onMessage.simps)
    next
      case (RECORDER_SET_OPTIONS opts)
      from setOptions_worker [of opts w] na have "untouched e w (fst (setOptions opts w))"
        by (auto intro!: untouched_settings)
      with Message RECORDER_SET_OPTIONS show ?thesis
        by (simp add: fst_onMessage del: onMessage.simps)
    next
      case RECORDER_EXPORT
      with Message na show ?thesis by (simp add: untouched_refl)
    next
      case (RECORDER_EVENT event)
      with Message wf na show ?thesis
        by (simp add: fst_onMessage untouched_handle_step_event untouched_refl del: onMessage.simps)
    next
      case OtherMessage
      with Message na show ?thesis by (simp add: untouched_refl)
    qed
  next
    case (TimerFires pe i)
    show ?thesis
    proof (cases "i < length (timers w)")
      case True
      let ?w = "w \<lparr> timers := take i (timers w) @ drop (Suc i) (timers w) \<rparr>"
      have "untouched e ?w (fst (postCapture pe (timers w ! i) ?w))"
        by (rule untouched_postCapture) (simp_all add: rows_wf_timers active_timers wf na)
      with TimerFires True show ?thesis by (simp add: untouched_timers)
    next
      case False
      with TimerFires na show ?thesis by (simp add: untouched_refl)
    qed
  next
    case (Navigation d)
    from onCommitted_worker [of d w] na have "untouched e w (onCommitted d w)"
      by (auto simp: untouched_refl active_episode_def intro!: untouched_settings)
    with Navigation show ?thesis by simp
  qed
qed

lemma reachable_run: "reachable w \<Longrightarrow> admissible_run ts w \<Longrightarrow> reachable (run ts w)"
  by (induction ts arbitrary: w) (auto intro: reachable_step)

lemma untouched_run:
  assumes "reachable w" and "admissible_run ts w"
    and "e \<in> set (map ep_episode_id (episodes_store w))"
    and "active_episode w \<noteq> Some e"
  shows "untouched e w (run ts w)"
  using assms
proof (induction ts arbitrary: w)
  case Nil
  then show ?case by (simp add: untouched_refl)
next
  case (Cons t ts)
  let ?w = "apply_transition t w"
  have i: "worker_inv w" using Cons.prems(1) by (rule reachable_inv)
  have ad: "admissible t w" and ad': "admissible_run ts ?w" using Cons.prems(2) by simp_all
  have u: "untouched e w ?w"
    by (rule untouched_apply_transition [OF i ad Cons.prems(3,4)])
  have r: "reachable ?w" using Cons.prems(1) ad by (rule reachable_step)
  have stored': "e \<in> set (map ep_episode_id (episodes_store ?w))"
    using u Cons.prems(3) unfolding stored_iff by (simp add: untouched_def)
  have na': "active_episode ?w \<noteq> Some e" using u by (simp add: untouched_def)
  from Cons.IH [OF r ad' stored' na'] u show ?case by (simp add: untouched_def)
qed

text \<open>
  When messages, timers and navigations are carried out one at a time, an episode that
  is stored and is not the active one keeps its rows and its metadata, unchanged (clear
  deletes the records of the active episode only), and it never becomes active again.
\<close>

lemma inactive_episode_untouched:
  assumes "reachable w" and "admissible_run ts w"
    and "e \<in> set (map ep_episode_id (episodes_store w))"
    and "active_episode w \<noteq> Some e"
  shows "rows_of (run ts w) e = rows_of w e \<and>
     store_get ep_episode_id e (episodes_store (run ts w)) =
       store_get ep_episode_id e (episodes_store w) \<and>
     active_episode (run ts w) \<noteq> Some e"
  using untouched_run [OF assms] by (simp add: untouched_def)

section \<open>The example session\<close>

lemma two_steps_A_run:
  "two_steps_A =
     run [Message (example_env ''A'') (RECORDER_START None) tab_sender,
          Message (example_env ''s0'') (RECORDER_EVENT click_event) tab_sender,
          Message (example_env ''s1'') (RECORDER_EVENT key_event) tab_sender] initial_worker"
  by (simp add: two_steps_A_def started_A_def)

lemma reachable_two_steps_A: "reachable two_steps_A"
  unfolding two_steps_A_run
  by (rule reachable_run [OF reachable_initial]) code_simp

lemma started_B_run: "started_B =
     run [Message (example_env ''x'') RECORDER_CLEAR tab_sender,
          Message (example_env ''B'') (RECORDER_START None) tab_sender] two_steps_A"
  by (simp add: started_B_def)

lemma reachable_stopped_A_started_B: "reachable stopped_A_started_B"
  unfolding stopped_A_started_B_def
  by (rule reachable_run [OF reachable_two_steps_A]) code_simp

lemma export_two_steps:
  "reachable two_steps_A \<and>
   onMessage (example_env ''x'') RECORDER_EXPORT tab_sender two_steps_A =
     (two_steps_A,
      ExportResponse
        \<lparr> out_episode_id = ''A'', out_created_at = ''2024-01-01T00:00:00.000Z'',
          out_browser_name = ''chromium'', out_origin_type = ''extension_mvp'',
          out_origin_build = ''0.1.0'', out_options = default_options,
          out_steps = map step (idbGetStepsForEpisode two_steps_A ''A'') \<rparr>
        ''A'' 2 ''Exported.'') \<and>
   map step_number (map step (idbGetStepsForEpisode two_steps_A ''A'')) = [0, 1] \<and>
   map post (map step (idbGetStepsForEpisode two_steps_A ''A'')) = [None, None]"
proof -
  let ?out = "\<lparr> out_episode_id = ''A'', out_created_at = ''2024-01-01T00:00:00.000Z'',
          out_browser_name = ''chromium'', out_origin_type = ''extension_mvp'',
          out_origin_build = ''0.1.0'', out_options = default_options,
          out_steps = map step (idbGetStepsForEpisode two_steps_A ''A'') \<rparr>"
  have r: "reachable two_steps_A" by (rule reachable_two_steps_A)
  have x: "onMessage (example_env ''x'') RECORDER_EXPORT tab_sender two_steps_A =
     (two_steps_A, ExportResponse ?out ''A'' 2 ''Exported.'')"
    by code_simp
  from export_matches_counter [OF r x]
  have "map step_number (out_steps ?out) = [0 ..< 2]" by blast
  then have n: "map step_number (map step (idbGetStepsForEpisode two_steps_A ''A'')) = [0, 1]"
    by (simp add: upt_rec)
  have p: "map post (map step (idbGetStepsForEpisode two_steps_A ''A'')) = [None, None]"
    by code_simp
  from r x n p show ?thesis by (intro conjI)
qed

theorem clear_idempotent_witness:
  "active_episode two_steps_A = Some ''A'' \<and>
   rows_of (clearAll two_steps_A) ''A'' = [] \<and>
   store_get ep_episode_id ''A'' (episodes_store (clearAll two_steps_A)) = None \<and>
   clearAll (clearAll two_steps_A) = clearAll two_steps_A"
proof -
  have a: "active_episode two_steps_A = Some ''A''" by code_simp
  have ne: "''A'' \<noteq> []" by simp
  from clear_idempotent [of two_steps_A] a ne
  have "rows_of (clearAll two_steps_A) ''A'' = [] \<and>
      store_get ep_episode_id ''A'' (episodes_store (clearAll two_steps_A)) = None"
    by blast
  moreover from clear_idempotent [of two_steps_A]
  have "clearAll (clearAll two_steps_A) = clearAll two_steps_A" by blast
  ultimately show ?thesis using a by (intro conjI) simp_all
qed

theorem stale_post_capture_abandoned_witness:
  "tm_episodeId (timers started_B ! 0) = ''A'' \<and> active_episode started_B = Some ''B'' \<and>
   postCapture example_post_env (timers started_B ! 0) started_B = (started_B, Abandoned)"
proof -
  have t: "tm_episodeId (timers started_B ! 0) = ''A''" by code_simp
  have a: "active_episode started_B = Some ''B''" by code_simp
  have "active_episode started_B \<noteq> Some (tm_episodeId (timers started_B ! 0))"
    by (simp add: t a)
  from stale_post_capture_abandoned [OF this, of example_post_env] t a
  show ?thesis by (intro conjI)
qed

lemma inactive_episode_untouched_example:
  "active_episode stopped_A_started_B = Some ''B'' \<and>
   map step_key (rows_of stopped_A_started_B ''A'') = [''A:0'', ''A:1''] \<and>
   rows_of
     (run [Message (example_env ''s2'') (RECORDER_EVENT click_event) tab_sender,
           TimerFires example_post_env 0,
           Message (example_env ''x'') RECORDER_CLEAR tab_sender] stopped_A_started_B) ''A'' =
     rows_of stopped_A_started_B ''A''"
proof -
  let ?ts = "[Message (example_env ''s2'') (RECORDER_EVENT click_event) tab_sender,
           TimerFires example_post_env 0,
           Message (example_env ''x'') RECORDER_CLEAR tab_sender]"
  have a: "active_episode stopped_A_started_B = Some ''B''" by code_simp
  have k: "map step_key (rows_of stopped_A_started_B ''A'') = [''A:0'', ''A:1'']" by code_simp
  have ad: "admissible_run ?ts stopped_A_started_B" by simp
  have st: "''A'' \<in> set (map ep_episode_id (episodes_store stopped_A_started_B))" by code_simp
  have na: "active_episode stopped_A_started_B \<noteq> Some ''A''" by (simp add: a)
  from inactive_episode_untouched [OF reachable_stopped_A_started_B ad st na]
  have "rows_of (run ?ts stopped_A_started_B) ''A'' = rows_of stopped_A_started_B ''A''" by blast
  with a k show ?thesis by (intro conjI)
qed

section \<open>Step events whose handling interleaves\<close>

text \<open>
  Two step events for the same episode. Handled one after the other they get the numbers
  0 and 1 and two rows are stored.
\<close>

lemma sequential_step_events:
  "(case run_schedule [0, 0, 0, 1, 1, 1]
      (started_A, [AtRead (example_env ''s0'') tab_sender click_event,
                   AtRead (example_env ''s1'') tab_sender key_event]) of
      (w, hs) \<Rightarrow>
        map response_of hs = [StepResponse 0, StepResponse 1] \<and>
        map (\<lambda>r. (step_key r, step_id (step r))) (steps_store w) = [(''A:0'', ''s0''), (''A:1'', ''s1'')] \<and>
        map_option stepCount (settings_store w) = Some 2)"
  by code_simp

text \<open>
  In any state where the two handlers both pass their tests, when both read the settings
  before either writes, they hold the same number and the same key: the second put
  replaces the row of the first, and both answer with that number.
\<close>

lemma racing_step_events:
  assumes r1: "step_read ev1 s1 e1 w = AtPut st1 n1 row1 tm1"
    and r2: "step_read ev2 s2 e2 w = AtPut st2 n2 row2 tm2"
  shows "n2 = n1 \<and> step_key row2 = step_key row1 \<and>
    run_schedule [0, 1, 0, 1, 0, 1] (w, [AtRead ev1 s1 e1, AtRead ev2 s2 e2]) =
      (w \<lparr> steps_store := store_put step_key row2 (store_put step_key row1 (steps_store w)),
           timers := timers w @ [tm1, tm2],
           settings_store := Some (st2 \<lparr> stepCount := n1 + 1,
              lastMessage := ''Recorded step '' @ String_of_nat n1 @ ''.'' \<rparr>) \<rparr>,
       [Done (StepResponse n1), Done (StepResponse n1)]) \<and>
    store_get step_key (step_key row1)
      (store_put step_key row2 (store_put step_key row1 (steps_store w))) = Some row2"
proof -
  from step_read_cases [of ev1 s1 e1 w] r1 obtain st e where
    a: "settings_store w = Some st" "episodeId st = Some e" "n1 = stepCount st"
      "step_key row1 = make_step_key e (stepCount st)"
    by auto
  from step_read_cases [of ev2 s2 e2 w] r2 a(1,2) have
    b: "n2 = stepCount st" "step_key row2 = make_step_key e (stepCount st)"
    by auto
  have n: "n2 = n1" using a(3) b(1) by simp
  have k: "step_key row2 = step_key row1" using a(4) b(2) by simp
  have run: "run_schedule [0, 1, 0, 1, 0, 1] (w, [AtRead ev1 s1 e1, AtRead ev2 s2 e2]) =
      (w \<lparr> steps_store := store_put step_key row2 (store_put step_key row1 (steps_store w)),
           timers := timers w @ [tm1, tm2],
           settings_store := Some (st2 \<lparr> stepCount := n1 + 1,
              lastMessage := ''Recorded step '' @ String_of_nat n1 @ ''.'' \<rparr>) \<rparr>,
       [Done (StepResponse n1), Done (StepResponse n1)])"
    by (simp add: r1 r2 n setSettings_def)
  have g: "store_get step_key (step_key row1)
      (store_put step_key row2 (store_put step_key row1 (steps_store w))) = Some row2"
    using store_get_put_same [of step_key row2 "store_put step_key row1 (steps_store w)"] k
    by simp
  from n k run g show ?thesis by (intro conjI)
qed

text \<open>
  Claim C1 asks that two step events of one episode get distinct step numbers and that
  neither pending record overwrites the other, also when their handling interleaves.
  Here both handlers read the settings before either writes: both get number 0, the row
  of the first is replaced by the row of the second, and the counter ends at 1.
\<close>

theorem interleaved_step_events_collide:
  "(case run_schedule [0, 1, 0, 1, 0, 1]
      (started_A, [AtRead (example_env ''s0'') tab_sender click_event,
                   AtRead (example_env ''s1'') tab_sender key_event]) of
      (w, hs) \<Rightarrow>
        map response_of hs = [StepResponse 0, StepResponse 0] \<and>
        map (\<lambda>r. (step_key r, step_id (step r))) (steps_store w) = [(''A:0'', ''s1'')] \<and>
        map_option stepCount (settings_store w) = Some 1)"
  by code_simp


section \<open>Clear and the post-capture, access by access\<close>

text \<open>
  Taken access by access with nothing in between, the clear and the post-capture end
  where \<open>clearAll\<close> and \<open>postCapture\<close> end.
\<close>

lemma clear_advance_done: "(clear_advance ^^ n) (w, ClearDone) = (w, ClearDone)"
  by (induction n) simp_all

lemma clear_advance_deletes:
  "(clear_advance ^^ (length rs + 2)) (w, ClearAtDelete e rs) =
     (setSettings cleared_settings
        ((fold (\<lambda>r v. v \<lparr> steps_store :=
                   store_delete step_key (step_key r) (steps_store v) \<rparr>) rs w)
           \<lparr> episodes_store :=
               store_delete ep_episode_id e
                 (episodes_store
                    (fold (\<lambda>r v. v \<lparr> steps_store :=
                              store_delete step_key (step_key r) (steps_store v) \<rparr>) rs w)) \<rparr>),
      ClearDone)"
proof (induction rs arbitrary: w)
  case Nil
  show ?case by (simp add: numeral_2_eq_2)
next
  case (Cons r rs)
  have e: "length (r # rs) + 2 = Suc (length rs + 2)" by simp
  have "(clear_advance ^^ (length (r # rs) + 2)) (w, ClearAtDelete e (r # rs)) =
      (clear_advance ^^ (length rs + 2)) (clear_advance (w, ClearAtDelete e (r # rs)))"
    unfolding e by (simp only: funpow_Suc_right o_apply)
  also have "clear_advance (w, ClearAtDelete e (r # rs)) =
      (w \<lparr> steps_store := store_delete step_key (step_key r) (steps_store w) \<rparr>,
       ClearAtDelete e rs)"
    by simp
  finally show ?case by (simp only: Cons.IH fold_simps)
qed

lemma clear_advance_more:
  assumes "(clear_advance ^^ m) x = (w, ClearDone)" and "m \<le> k"
  shows "(clear_advance ^^ k) x = (w, ClearDone)"
proof -
  from assms(2) obtain d where k: "k = d + m" by (metis le_iff_add add.commute)
  have "(clear_advance ^^ (d + m)) x = (clear_advance ^^ d) ((clear_advance ^^ m) x)"
    by (simp add: funpow_add)
  with assms(1) k show ?thesis by (simp add: clear_advance_done)
qed

lemma length_steps_for_episode: "length (idbGetStepsForEpisode w e) \<le> length (steps_store w)"
proof -
  have "length (idbGetStepsForEpisode w e) =
      length (filter (\<lambda>r. episode_id r = e) (steps_store w))"
    unfolding idbGetStepsForEpisode_def by (rule mset_eq_length) (rule mset_js_sort)
  then show ?thesis by simp
qed

lemma clearAll_access_by_access:
  "(clear_advance ^^ (length (steps_store w) + 4)) (w, ClearAtRead) = (clearAll w, ClearDone)"
proof (cases "getSettings w")
  case None
  then have "(clear_advance ^^ 2) (w, ClearAtRead) = (clearAll w, ClearDone)"
    by (simp add: numeral_2_eq_2 clearAll_def)
  then show ?thesis by (rule clear_advance_more) simp
next
  case (Some st)
  show ?thesis
  proof (cases "truthy (episodeId st)")
    case False
    with Some have "(clear_advance ^^ 2) (w, ClearAtRead) = (clearAll w, ClearDone)"
      by (simp add: numeral_2_eq_2 clearAll_def)
    then show ?thesis by (rule clear_advance_more) simp
  next
    case True
    let ?e = "or_empty (episodeId st)"
    let ?rs = "idbGetStepsForEpisode w ?e"
    have e4: "length ?rs + 4 = length ?rs + 2 + 2" by simp
    have "(clear_advance ^^ (length ?rs + 4)) (w, ClearAtRead) =
        (clear_advance ^^ (length ?rs + 2)) ((clear_advance ^^ 2) (w, ClearAtRead))"
      unfolding e4 by (simp only: funpow_add o_apply)
    also have "(clear_advance ^^ 2) (w, ClearAtRead) = (w, ClearAtDelete ?e ?rs)"
      using Some True by (simp add: numeral_2_eq_2)
    also have "(clear_advance ^^ (length ?rs + 2)) (w, ClearAtDelete ?e ?rs) = (clearAll w, ClearDone)"
      using Some True by (simp only: clear_advance_deletes) (simp add: clearAll_def Let_def)
    finally have "(clear_advance ^^ (length ?rs + 4)) (w, ClearAtRead) = (clearAll w, ClearDone)" .
    then show ?thesis
      by (rule clear_advance_more) (simp add: length_steps_for_episode)
  qed
qed

lemma postCapture_access_by_access:
  "post_advance (post_advance (post_advance (w, PostAtGuard pe tm))) =
     (fst (postCapture pe tm w), PostDone (snd (postCapture pe tm w)))"
proof (cases "getSettings w")
  case None
  then show ?thesis by (auto simp: postCapture_def)
next
  case (Some st3)
  show ?thesis
  proof (cases "\<not> truthy (episodeId st3) \<or> episodeId st3 \<noteq> Some (tm_episodeId tm)")
    case True
    with Some show ?thesis by (auto simp: postCapture_def)
  next
    case guard: False
    show ?thesis
    proof (cases "pe_tab pe")
      case None
      with Some guard show ?thesis by (auto simp: postCapture_def)
    next
      case tab2: (Some tab2)
      show ?thesis
      proof (cases "captureScreenshots (options st3) = Some True \<and> pe_shot pe = None")
        case True
        with Some guard tab2 show ?thesis by (auto simp: postCapture_def)
      next
        case shot: False
        show ?thesis
        proof (cases "store_get step_key
            (make_step_key (tm_episodeId tm) (tm_stepNumber tm)) (steps_store w)")
          case None
          with Some guard tab2 shot show ?thesis by (auto simp: postCapture_def Let_def)
        next
          case row: (Some row)
          with Some guard tab2 shot show ?thesis by (auto simp: postCapture_def Let_def)
        qed
      qed
    qed
  qed
qed

section \<open>Export while other accesses are under way\<close>

text \<open>
  Claim C3 asks that the exported steps are numbered from 0 with no gap. Here episode
  \<open>A\<close> has the steps 0 and 1 and recording is stopped; a clear is under way and has
  deleted the row of step 0, the row of step 1, the episode and the settings being still
  in place. An export handled at this point returns an array with the one step 1.
\<close>

theorem export_during_clear_has_gap:
  "export_summary (snd (onMessage (example_env ''x'') RECORDER_EXPORT tab_sender stopped_A)) =
     Some (''A'', 2, [0, 1]) \<and>
   map step_key (steps_store (fst clearing_A)) = [''A:1''] \<and>
   active_episode (fst clearing_A) = Some ''A'' \<and>
   export_summary
     (snd (onMessage (example_env ''x'') RECORDER_EXPORT tab_sender (fst clearing_A))) =
     Some (''A'', 1, [1])"
  by code_simp

text \<open>
  Three step events of episode \<open>A\<close>, of which the first reads the settings, is overtaken
  by the two others and then puts its row and writes the settings: all three are
  answered, two rows are stored, the counter of the settings is 1 and the export counts
  2 steps.
\<close>

lemma export_count_differs_from_counter:
  "(case run_schedule [0, 1, 1, 1, 2, 2, 2, 0, 0]
      (started_A, [AtRead (example_env ''s0'') tab_sender click_event,
                   AtRead (example_env ''s1'') tab_sender key_event,
                   AtRead (example_env ''s2'') tab_sender click_event]) of
      (w, hs) \<Rightarrow>
        map response_of hs = [StepResponse 0, StepResponse 0, StepResponse 1] \<and>
        map_option stepCount (settings_store w) = Some 1 \<and>
        export_summary (export_episode w) = Some (''A'', 2, [0, 1]))"
  by code_simp

section \<open>Writes that land in an episode no longer active\<close>

text \<open>
  Claim C10 asks that the records of an episode that is no longer active are left
  unchanged by every operation. Here episode \<open>A\<close> has one step; the handler of a second
  step event reads the settings; recording is stopped and episode \<open>B\<close> is started; then
  the handler puts its row and writes the settings from its copy: episode \<open>A\<close>, which
  was not active, has a second row, and it is the active episode again.
\<close>

theorem overtaken_handler_writes_inactive_episode:
  "active_episode restarted_B = Some ''B'' \<and>
   map step_key (rows_of restarted_B ''A'') = [''A:0''] \<and>
   map step_key (rows_of (fst overtaken_finished) ''A'') = [''A:0'', ''A:1''] \<and>
   active_episode (fst overtaken_finished) = Some ''A'' \<and>
   snd overtaken_finished = Done (StepResponse 1)"
  by code_simp

text \<open>
  Likewise the post-capture of step 0 of episode \<open>A\<close> that has passed its test before
  episode \<open>B\<close> is started: it then gets the row of \<open>A\<close> and puts it back with the
  observation, while \<open>B\<close> is the active episode.
\<close>

lemma late_post_capture_writes_inactive_episode:
  "active_episode restarted_B_late = Some ''B'' \<and>
   map (\<lambda>r. (step_key r, post (step r) = None)) (rows_of restarted_B_late ''A'') =
     [(''A:0'', True)] \<and>
   map (\<lambda>r. (step_key r, post (step r) = None)) (rows_of (fst late_write) ''A'') =
     [(''A:0'', False)] \<and>
   active_episode (fst late_write) = Some ''B'' \<and>
   snd late_write = PostDone Finalized"
  by code_simp

end
